theory Spec2Isabelle
  imports Main
begin

section \<open>Duration parsing (admin.py, parse_time)\<close>

text \<open>
  \<^verbatim>\<open>duration_match = r"(?P<duration>\d+[dhmsw])"\<close> is applied with \<^verbatim>\<open>re.findall\<close>.
  A match at a position is a maximal run of decimal digits followed at once by one of
  the unit letters; a run followed by anything else yields no match at any of its
  positions, since the character after a shorter prefix of the run is a digit. The scan
  below carries the digit run read so far.
\<close>

definition is_digit :: "char \<Rightarrow> bool" where
  "is_digit c = (c \<in> set ''0123456789'')"

definition is_unit :: "char \<Rightarrow> bool" where
  "is_unit c = (c \<in> set ''dhmsw'')"

fun findall_duration :: "string \<Rightarrow> string \<Rightarrow> (string \<times> char) list" where
  "findall_duration run [] = []"
| "findall_duration run (c # cs) =
     (if is_digit c then findall_duration (run @ [c]) cs
      else if is_unit c \<and> run \<noteq> [] then (run, c) # findall_duration [] cs
      else findall_duration [] cs)"

definition digit_val :: "char \<Rightarrow> int" where
  "digit_val c = int (length (takeWhile (\<lambda>d. d \<noteq> c) ''0123456789''))"

definition int_of_digits :: "string \<Rightarrow> int" where
  "int_of_digits t = foldl (\<lambda>acc c. 10 * acc + digit_val c) 0 t"

definition multipliers :: "char \<Rightarrow> int" where
  "multipliers u =
     (if u = CHR ''s'' then 1
      else if u = CHR ''m'' then 60
      else if u = CHR ''h'' then 60 * 60
      else if u = CHR ''d'' then 60 * 60 * 24
      else 60 * 60 * 24 * 7)"

definition parse_time :: "string \<Rightarrow> int" where
  "parse_time timestr =
     foldl (\<lambda>duration (t, unit). duration + int_of_digits t * multipliers unit) 0
       (findall_duration [] timestr)"

section \<open>The operator plugin's state (admin.py, IRCAdmin)\<close>

text \<open>
  A timer key is the tuple \<^verbatim>\<open>(hostmask, channel, mode)\<close> of \<^verbatim>\<open>later_timers\<close>.
  Requests are what \<^verbatim>\<open>transport.issue_request\<close> is called with. The exceptions
  the handlers know are those of \<^verbatim>\<open>ircop\<close> and \<^verbatim>\<open>ircutil\<close>, and Python's
  \<^verbatim>\<open>KeyError\<close>.
\<close>

type_synonym timer_key = "string \<times> string \<times> string"

datatype request =
    Kick string string "string option"
  | Mode string string string
  | Whois string

datatype exn = OpFailed string | NoSuchNick | WhoisTimedout | KeyError

text \<open>
  The answer a request eventually gets is decided outside the plugin: \<open>Inr v\<close> when
  the deferred fires with a value (for a whois, the host field
  \<^verbatim>\<open>whois_results['RPL_WHOISUSER'][2]\<close>), \<open>Inl e\<close> when it fails with an exception.
  The answer may depend on every request issued before.
\<close>

type_synonym env = "request list \<Rightarrow> request \<Rightarrow> exn + string"

record delayed_call =
  call_id :: nat
  call_delay :: int
  call_key :: timer_key

text \<open>
  \<open>later_timers\<close> is the dictionary of the same name, from timer keys to the reactor's
  delayed calls (named by their identity); \<open>laters\<close> is \<^verbatim>\<open>config['laters']\<close> and
  \<open>saved_laters\<close> what \<^verbatim>\<open>config.save()\<close> wrote last; \<open>pending_calls\<close> are the
  reactor's delayed calls that are neither cancelled nor called; \<open>clock\<close> is
  \<^verbatim>\<open>time.time()\<close>, in whole seconds; \<open>requests\<close>, \<open>sent_msgs\<close> and \<open>replies\<close>
  record, oldest first, the requests issued, the \<^verbatim>\<open>irc.do_msg\<close> events sent and the
  calls of \<^verbatim>\<open>reply\<close>.
\<close>

record admin_state =
  later_timers :: "timer_key \<rightharpoonup> nat"
  laters :: "(int \<times> string \<times> string \<times> string) list"
  saved_laters :: "(int \<times> string \<times> string \<times> string) list"
  pending_calls :: "delayed_call list"
  next_call :: nat
  clock :: int
  requests :: "request list"
  sent_msgs :: "(string \<times> string) list"
  replies :: "string list"

definition init_admin :: admin_state where
  "init_admin = \<lparr>later_timers = Map.empty, laters = [], saved_laters = [],
     pending_calls = [], next_call = 0, clock = 0, requests = [], sent_msgs = [],
     replies = []\<rparr>"

definition item_matches :: "timer_key \<Rightarrow> int \<times> string \<times> string \<times> string \<Rightarrow> bool" where
  "item_matches k item =
     (case (k, item) of ((hostmask, channel, mode), (t, h, c, m)) \<Rightarrow>
        h = hostmask \<and> c = channel \<and> m = mode)"

definition cancel_call :: "nat \<Rightarrow> delayed_call list \<Rightarrow> delayed_call list" where
  "cancel_call timer calls = filter (\<lambda>c. call_id c \<noteq> timer) calls"

definition call_later :: "int \<Rightarrow> timer_key \<Rightarrow> admin_state \<Rightarrow> nat \<times> admin_state" where
  "call_later delay k s =
     (next_call s,
      s\<lparr>pending_calls := pending_calls s @
           [\<lparr>call_id = next_call s, call_delay = delay, call_key = k\<rparr>],
        next_call := Suc (next_call s)\<rparr>)"

definition set_timer :: "int \<Rightarrow> string \<Rightarrow> string \<Rightarrow> string \<Rightarrow> admin_state \<Rightarrow> admin_state" where
  "set_timer delay hostmask channel mode s =
     (let k = (hostmask, channel, mode);
          s1 = (case later_timers s k of
                  Some timer \<Rightarrow>
                    s\<lparr>later_timers := (later_timers s)(k := None),
                      pending_calls := cancel_call timer (pending_calls s)\<rparr>
                | None \<Rightarrow> s);
          s2 = s1\<lparr>laters := filter (\<lambda>item. \<not> item_matches k item) (laters s1)\<rparr>;
          (timer, s3) = call_later (max 1 delay) k s2;
          s4 = s3\<lparr>later_timers := (later_timers s3)(k \<mapsto> timer)\<rparr>;
          s5 = s4\<lparr>laters := laters s4 @ [(clock s4 + delay, hostmask, channel, mode)]\<rparr>
      in s5\<lparr>saved_laters := laters s5\<rparr>)"

definition issue_request :: "env \<Rightarrow> request \<Rightarrow> admin_state \<Rightarrow> (exn + string) \<times> admin_state" where
  "issue_request e r s = (e (requests s) r, s\<lparr>requests := requests s @ [r]\<rparr>)"

definition reply :: "string \<Rightarrow> admin_state \<Rightarrow> admin_state" where
  "reply msg s = s\<lparr>replies := replies s @ [msg]\<rparr>"

definition mode_word :: "string \<Rightarrow> string option" where
  "mode_word mode = (if mode = ''q'' then Some ''quiet''
     else if mode = ''b'' then Some ''ban'' else None)"

text \<open>
  \<^verbatim>\<open>do_later\<close>, the closure \<^verbatim>\<open>_set_timer\<close> hands to the reactor: it removes its
  own entries, then issues the \<^verbatim>\<open>-mode\<close> request; an \<^verbatim>\<open>OpFailed\<close> becomes a
  message to the channel.
\<close>

definition do_later :: "env \<Rightarrow> timer_key \<Rightarrow> admin_state \<Rightarrow> (exn + unit) \<times> admin_state" where
  "do_later e k s =
     (case k of (hostmask, channel, mode) \<Rightarrow>
        (case later_timers s k of
           None \<Rightarrow> (Inl KeyError, s)
         | Some _ \<Rightarrow>
            (let s1 = s\<lparr>later_timers := (later_timers s)(k := None)\<rparr>;
                 s2 = s1\<lparr>laters := filter (\<lambda>item. \<not> item_matches k item) (laters s1)\<rparr>;
                 s3 = s2\<lparr>saved_laters := laters s2\<rparr>
             in (case issue_request e (Mode channel (''-'' @ mode) hostmask) s3 of
                   (Inr _, s4) \<Rightarrow> (Inr (), s4)
                 | (Inl (OpFailed msg), s4) \<Rightarrow>
                     (case mode_word mode of
                        None \<Rightarrow> (Inl KeyError, s4)
                      | Some w \<Rightarrow>
                          (Inr (), s4\<lparr>sent_msgs := sent_msgs s4 @
                             [(channel, ''I was about to un-'' @ w @ '' '' @ hostmask
                                 @ '', but '' @ msg)]\<rparr>))
                 | (Inl x, s4) \<Rightarrow> (Inl x, s4)))))"

text \<open>
  The reactor calls a pending delayed call: the call leaves the pending ones and its
  closure runs. A call that is not pending (cancelled, or called before) never runs.
\<close>

definition fire_call :: "env \<Rightarrow> nat \<Rightarrow> admin_state \<Rightarrow> (exn + unit) \<times> admin_state" where
  "fire_call e timer s =
     (case filter (\<lambda>c. call_id c = timer) (pending_calls s) of
        [] \<Rightarrow> (Inr (), s)
      | c # _ \<Rightarrow> do_later e (call_key c) (s\<lparr>pending_calls := cancel_call timer (pending_calls s)\<rparr>))"

record mode_event =
  ev_set :: bool
  ev_mode :: string
  ev_arg :: string
  ev_channel :: string

definition on_event_irc_on_mode_change :: "mode_event \<Rightarrow> admin_state \<Rightarrow> admin_state" where
  "on_event_irc_on_mode_change event s =
     (if ev_set event = False then
        (let mode = ev_mode event; user = ev_arg event; channel = ev_channel event;
             k = (user, channel, mode)
         in (case later_timers s k of
               None \<Rightarrow> s
             | Some timer \<Rightarrow>
                 (let s1 = s\<lparr>later_timers := (later_timers s)(k := None),
                               pending_calls := cancel_call timer (pending_calls s)\<rparr>;
                      s2 = s1\<lparr>laters := filter (\<lambda>item. \<not> item_matches k item) (laters s1)\<rparr>
                  in s2\<lparr>saved_laters := laters s2\<rparr>)))
      else s)"

section \<open>Moderation commands (admin.py, IRCAdmin)\<close>

text \<open>
  A command event carries the hostmask of who wrote the command and the channel it
  was written in (the handlers are wrapped in \<^verbatim>\<open>require_channel\<close>; the commands
  below are taken as issued in a channel). The optional duration of a command is a
  string of the command line, absent, or, from \<^verbatim>\<open>quietself\<close>, a number.

  A handler that waits for a request with \<^verbatim>\<open>yield\<close> is run here to its end with
  the answer the environment gives, no other event in between. A result \<open>Inl x\<close> of
  a handler is the exception \<open>x\<close> leaving it. \<^verbatim>\<open>quiet\<close>, \<^verbatim>\<open>unquiet\<close> and
  \<^verbatim>\<open>unban\<close> call their worker without \<^verbatim>\<open>yield\<close> and drop its deferred.
\<close>

record command_event =
  ce_user :: string
  ce_channel :: string

datatype duration = NoDuration | StrDuration string | IntDuration int

definition truthy :: "duration \<Rightarrow> bool" where
  "truthy d = (case d of NoDuration \<Rightarrow> False | StrDuration t \<Rightarrow> t \<noteq> []
     | IntDuration n \<Rightarrow> n \<noteq> 0)"

definition seconds :: "duration \<Rightarrow> int" where
  "seconds d = (case d of NoDuration \<Rightarrow> 0 | StrDuration t \<Rightarrow> parse_time t
     | IntDuration n \<Rightarrow> n)"

definition split_first :: "char \<Rightarrow> string \<Rightarrow> string" where
  "split_first sep t = takeWhile (\<lambda>c. c \<noteq> sep) t"

definition nick_to_hostmask :: "env \<Rightarrow> string \<Rightarrow> admin_state \<Rightarrow> (exn + string) \<times> admin_state" where
  "nick_to_hostmask e nick s =
     (if (CHR ''!'' \<in> set nick \<and> CHR ''@'' \<in> set nick) \<or> take 1 nick = ''$''
      then (Inr nick, s)
      else (case issue_request e (Whois nick) s of
              (Inl x, s1) \<Rightarrow> (Inl x, s1)
            | (Inr host, s1) \<Rightarrow> (Inr (''*!*@'' @ host), s1)))"

definition kick :: "env \<Rightarrow> command_event \<Rightarrow> string \<Rightarrow> string option \<Rightarrow> admin_state
    \<Rightarrow> (exn + unit) \<times> admin_state" where
  "kick e event nick reason s =
     (case issue_request e (Kick (ce_channel event) nick reason) s of
        (Inl (OpFailed msg), s1) \<Rightarrow> (Inr (), reply msg s1)
      | (Inl x, s1) \<Rightarrow> (Inl x, s1)
      | (Inr _, s1) \<Rightarrow> (Inr (), s1))"

definition do_moderequest :: "env \<Rightarrow> string \<Rightarrow> string \<Rightarrow> duration \<Rightarrow> string \<Rightarrow> admin_state
    \<Rightarrow> (exn + unit) \<times> admin_state" where
  "do_moderequest e mode nick dur channel s =
     (case nick_to_hostmask e nick s of
        (Inl NoSuchNick, s1) \<Rightarrow>
          (Inr (), reply (''There is no user by that nick on the network. Try '' @ nick
             @ ''!*@* to '' @ (case mode_word mode of Some w \<Rightarrow> w | None \<Rightarrow> ''apply to'')
             @ '' anyone with that nick, or specify your own hostmask.'') s1)
      | (Inl WhoisTimedout, s1) \<Rightarrow>
          (Inr (), reply (''That'' @ [CHR 0x27] @ ''s odd, the whois I did on '' @ nick
             @ '' didn'' @ [CHR 0x27] @ ''t work. Sorry.'') s1)
      | (Inl x, s1) \<Rightarrow> (Inl x, s1)
      | (Inr msk, s1) \<Rightarrow>
          (case issue_request e (Mode channel (''+'' @ mode) msk) s1 of
             (Inl (OpFailed msg), s2) \<Rightarrow> (Inr (), reply msg s2)
           | (Inl x, s2) \<Rightarrow> (Inl x, s2)
           | (Inr _, s2) \<Rightarrow>
               (if truthy dur then (Inr (), set_timer (seconds dur) msk channel mode s2)
                else (Inr (), s2))))"

record ban_match =
  bm_nick :: string
  bm_duration :: duration
  bm_reason :: "string option"

text \<open>\<^verbatim>\<open>reason or ("Requested by " + event.user.split("!")[0])\<close>\<close>

definition kick_reason :: "command_event \<Rightarrow> string option \<Rightarrow> string" where
  "kick_reason event reason =
     (case reason of
        Some r \<Rightarrow> if r \<noteq> [] then r
                  else ''Requested by '' @ split_first CHR ''!'' (ce_user event)
      | None \<Rightarrow> ''Requested by '' @ split_first CHR ''!'' (ce_user event))"

definition ban :: "env \<Rightarrow> command_event \<Rightarrow> ban_match \<Rightarrow> admin_state \<Rightarrow> (exn + unit) \<times> admin_state" where
  "ban e event m s =
     (let nick0 = bm_nick m; channel = ce_channel event;
          (nick, do_kick) =
            (if CHR ''@'' \<in> set nick0 \<and> CHR ''!'' \<in> set nick0 \<and> CHR ''$'' \<notin> set nick0
             then (let n = split_first CHR ''!'' nick0 in (n, CHR ''*'' \<notin> set n))
             else if CHR ''@'' \<notin> set nick0 \<and> CHR ''!'' \<notin> set nick0 \<and> CHR ''$'' \<notin> set nick0
             then (nick0, True)
             else (nick0, False));
          reason = kick_reason event (bm_reason m)
      in if do_kick then
           (case issue_request e (Kick channel nick (Some reason)) s of
              (Inl x, s1) \<Rightarrow> (Inl x, s1)
            | (Inr _, s1) \<Rightarrow> do_moderequest e ''b'' nick (bm_duration m) channel s1)
         else do_moderequest e ''b'' nick (bm_duration m) channel s)"

text \<open>
  \<^verbatim>\<open>_do_modederequest\<close> calls \<^verbatim>\<open>issue_request\<close> for the \<^verbatim>\<open>-mode\<close> request without
  \<^verbatim>\<open>yield\<close>: the request is issued and its answer is not awaited, so the handler goes on
  whatever the answer will be.
\<close>

definition do_modederequest :: "env \<Rightarrow> string \<Rightarrow> string \<Rightarrow> duration \<Rightarrow> string \<Rightarrow> admin_state
    \<Rightarrow> (exn + unit) \<times> admin_state" where
  "do_modederequest e mode nick dur channel s =
     (case nick_to_hostmask e nick s of
        (Inl NoSuchNick, s1) \<Rightarrow>
          (Inr (), reply (''There is no user by than nick on the network. ''
             @ ''Check the username or try specifying a full hostmask'') s1)
      | (Inl WhoisTimedout, s1) \<Rightarrow>
          (Inr (), reply (''That'' @ [CHR 0x27] @ ''s odd, the whois I did on '' @ nick
             @ '' didn'' @ [CHR 0x27] @ ''t work. Sorry.'') s1)
      | (Inl x, s1) \<Rightarrow> (Inl x, s1)
      | (Inr msk, s1) \<Rightarrow>
          (if truthy dur
           then (Inr (), reply ''It shall be done'' (set_timer (seconds dur) msk channel mode s1))
           else (Inr (), snd (issue_request e (Mode channel (''-'' @ mode) msk) s1))))"

record mode_match =
  mm_nick :: string
  mm_duration :: duration

definition quiet :: "env \<Rightarrow> command_event \<Rightarrow> mode_match \<Rightarrow> admin_state \<Rightarrow> admin_state" where
  "quiet e event m s =
     snd (do_moderequest e ''q'' (mm_nick m) (mm_duration m) (ce_channel event) s)"

definition unquiet :: "env \<Rightarrow> command_event \<Rightarrow> mode_match \<Rightarrow> admin_state \<Rightarrow> admin_state" where
  "unquiet e event m s =
     snd (do_modederequest e ''q'' (mm_nick m) (mm_duration m) (ce_channel event) s)"

definition unban :: "env \<Rightarrow> command_event \<Rightarrow> mode_match \<Rightarrow> admin_state \<Rightarrow> admin_state" where
  "unban e event m s =
     snd (do_modederequest e ''b'' (mm_nick m) (mm_duration m) (ce_channel event) s)"


section \<open>Runs of the timer registry\<close>

text \<open>
  What can happen to the registry, one event processed to completion before the next:
  a timer is set, the reactor calls a delayed call, a mode change is seen, time passes.
\<close>

datatype admin_op =
    SetTimer int string string string
  | Fire nat
  | ModeChange mode_event
  | Tick int

fun admin_step :: "env \<Rightarrow> admin_op \<Rightarrow> admin_state \<Rightarrow> admin_state" where
  "admin_step e (SetTimer delay hostmask channel mode) s = set_timer delay hostmask channel mode s"
| "admin_step e (Fire timer) s = snd (fire_call e timer s)"
| "admin_step e (ModeChange event) s = on_event_irc_on_mode_change event s"
| "admin_step e (Tick n) s = s\<lparr>clock := clock s + n\<rparr>"

definition run_admin :: "env \<Rightarrow> admin_op list \<Rightarrow> admin_state \<Rightarrow> admin_state" where
  "run_admin e ops s = foldl (\<lambda>s op. admin_step e op s) s ops"

text \<open>
  The registry is consistent when the reactor's pending calls and the dictionary name
  each other, the calls' identities are distinct and older than the next one, the
  persisted list holds exactly one entry for each key of the dictionary and none for
  any other, and the list was saved.
\<close>

definition admin_inv :: "admin_state \<Rightarrow> bool" where
  "admin_inv s =
     ((\<forall>c \<in> set (pending_calls s). call_id c < next_call s
          \<and> later_timers s (call_key c) = Some (call_id c))
      \<and> distinct (map call_id (pending_calls s))
      \<and> (\<forall>k t. later_timers s k = Some t \<longrightarrow>
            (\<exists>c \<in> set (pending_calls s). call_id c = t \<and> call_key c = k))
      \<and> (\<forall>k. length (filter (item_matches k) (laters s))
              = (if later_timers s k = None then 0 else 1))
      \<and> saved_laters s = laters s)"


text \<open>Auxiliary notions for stating the registry's properties.\<close>

definition uncancel :: "nat option \<Rightarrow> delayed_call list \<Rightarrow> delayed_call list" where
  "uncancel old cs = (case old of None \<Rightarrow> cs | Some t \<Rightarrow> cancel_call t cs)"

definition drop_key :: "timer_key \<Rightarrow> nat \<Rightarrow> admin_state \<Rightarrow> admin_state" where
  "drop_key k t s =
     s\<lparr>later_timers := (later_timers s)(k := None),
       pending_calls := cancel_call t (pending_calls s),
       laters := filter (\<lambda>item. \<not> item_matches k item) (laters s),
       saved_laters := filter (\<lambda>item. \<not> item_matches k item) (laters s)\<rparr>"

definition reversal :: "timer_key \<Rightarrow> request" where
  "reversal k = (case k of (hostmask, channel, mode) \<Rightarrow> Mode channel (''-'' @ mode) hostmask)"

definition new_requests :: "admin_state \<Rightarrow> admin_state \<Rightarrow> request list" where
  "new_requests s s' = drop (length (requests s)) (requests s')"

definition is_op_request :: "request \<Rightarrow> bool" where
  "is_op_request r = (case r of Whois _ \<Rightarrow> False | _ \<Rightarrow> True)"

definition is_mode_request :: "request \<Rightarrow> bool" where
  "is_mode_request r = (case r of Mode _ _ _ \<Rightarrow> True | _ \<Rightarrow> False)"

text \<open>
  A target the ban command kicks: a bare nick, or a hostmask whose nick part has no
  wildcard. A target with a \<^verbatim>\<open>$\<close> in it is an extended ban and is never kicked.
\<close>

definition kickable :: "string \<Rightarrow> bool" where
  "kickable target =
     (CHR ''$'' \<notin> set target \<and>
      ((CHR ''@'' \<notin> set target \<and> CHR ''!'' \<notin> set target) \<or>
       (CHR ''@'' \<in> set target \<and> CHR ''!'' \<in> set target
          \<and> CHR ''*'' \<notin> set (split_first CHR ''!'' target))))"

definition no_set_timer :: "timer_key \<Rightarrow> admin_op list \<Rightarrow> bool" where
  "no_set_timer k ops =
     (\<forall>op \<in> set ops. case op of SetTimer d h c m \<Rightarrow> (h, c, m) \<noteq> k | _ \<Rightarrow> True)"

definition helpful_env :: "string \<Rightarrow> env" where
  "helpful_env host hist r = (case r of Whois n \<Rightarrow> Inr host | _ \<Rightarrow> Inr [])"

definition refusing_env :: "string \<Rightarrow> env" where
  "refusing_env msg hist r = (case r of Whois n \<Rightarrow> Inr ''bad.host'' | _ \<Rightarrow> Inl (OpFailed msg))"

section \<open>Topic commands (admin.py, IRCTopic)\<close>

text \<open>
  Python's \<^verbatim>\<open>split("|")\<close>, \<^verbatim>\<open>strip()\<close> and \<^verbatim>\<open>" | ".join\<close>; \<^verbatim>\<open>"%s" % len(...)\<close>
  prints a number in decimal. A topic is a \<^verbatim>\<open>unicode\<close> string, here with its code points
  below 256: of these \<^verbatim>\<open>unicode.strip()\<close> removes the space, 0x09 to 0x0D, the
  separators 0x1C to 0x1F, the next-line character 0x85 and the no-break space 0xA0.
\<close>

fun split_on :: "char \<Rightarrow> string \<Rightarrow> string list" where
  "split_on sep [] = [[]]"
| "split_on sep (c # cs) =
     (if c = sep then [] # split_on sep cs
      else (case split_on sep cs of x # xs \<Rightarrow> (c # x) # xs | [] \<Rightarrow> [[c]]))"

definition is_space :: "char \<Rightarrow> bool" where
  "is_space c = (c \<in> {CHR '' '', CHR 0x09, CHR 0x0A, CHR 0x0B, CHR 0x0C, CHR 0x0D,
                        CHR 0x1C, CHR 0x1D, CHR 0x1E, CHR 0x1F, CHR 0x85, CHR 0xA0})"

definition strip :: "string \<Rightarrow> string" where
  "strip t = rev (dropWhile is_space (rev (dropWhile is_space t)))"

fun join :: "string \<Rightarrow> string list \<Rightarrow> string" where
  "join sep [] = []"
| "join sep [x] = x"
| "join sep (x # y # ys) = x @ sep @ join sep (y # ys)"

fun str_of_nat :: "nat \<Rightarrow> string" where
  "str_of_nat n =
     (if n < 10 then [''0123456789'' ! n]
      else str_of_nat (n div 10) @ [''0123456789'' ! (n mod 10)])"

declare str_of_nat.simps [simp del]

text \<open>
  The Python exceptions that occur in the handlers modelled here besides those of the
  operator requests: \<^verbatim>\<open>IndexError\<close> of an index out of range, \<^verbatim>\<open>OverflowError\<close> of an
  integer that does not fit the index type, \<^verbatim>\<open>TypeError\<close> of a call with the wrong
  number of arguments, and Twisted's \<^verbatim>\<open>AlreadyCalled\<close> of cancelling a delayed call
  that has run.
\<close>

datatype py_error = IndexError | OverflowError | TypeError | AlreadyCalled

text \<open>
  Python's list operations with an integer position (\<^verbatim>\<open>int(gd['pos'])\<close> is an unbounded
  integer): a negative position counts from the end. Item assignment and \<^verbatim>\<open>del\<close> raise
  \<^verbatim>\<open>IndexError\<close> (here \<open>None\<close>) out of range, also for a position that does not fit
  the index type. \<^verbatim>\<open>insert\<close> converts the position to the index type \<^verbatim>\<open>Py_ssize_t\<close>
  first and raises \<^verbatim>\<open>OverflowError\<close> when it does not fit; a position that fits is
  clamped into the list. \<open>ssize_max\<close> is the largest \<^verbatim>\<open>Py_ssize_t\<close>, of a 64-bit build.
\<close>

definition ssize_max :: int where
  "ssize_max = 2 ^ 63 - 1"

definition py_index :: "'a list \<Rightarrow> int \<Rightarrow> nat option" where
  "py_index xs pos =
     (let n = int (length xs); j = (if pos < 0 then pos + n else pos)
      in if 0 \<le> j \<and> j < n then Some (nat j) else None)"

definition py_insert :: "'a list \<Rightarrow> int \<Rightarrow> 'a \<Rightarrow> py_error + 'a list" where
  "py_insert xs pos x =
     (if pos < - ssize_max - 1 \<or> ssize_max < pos then Inl OverflowError
      else (let n = int (length xs); j = (if pos < 0 then max 0 (pos + n) else min pos n)
            in Inr (take (nat j) xs @ [x] @ drop (nat j) xs)))"

definition py_setitem :: "'a list \<Rightarrow> int \<Rightarrow> 'a \<Rightarrow> 'a list option" where
  "py_setitem xs pos x = (case py_index xs pos of None \<Rightarrow> None | Some j \<Rightarrow> Some (xs[j := x]))"

definition py_delitem :: "'a list \<Rightarrow> int \<Rightarrow> 'a list option" where
  "py_delitem xs pos =
     (case py_index xs pos of None \<Rightarrow> None | Some j \<Rightarrow> Some (take j xs @ drop (Suc j) xs))"

text \<open>\<^verbatim>\<open>deque(maxlen=10).append\<close>: a full deque drops its oldest item.\<close>

definition deque_append :: "'a list \<Rightarrow> 'a \<Rightarrow> 'a list" where
  "deque_append q x = (if length q \<ge> 10 then tl q @ [x] else q @ [x])"

text \<open>
  The callbacks an edit command adds to the deferred of the current topic: its own
  \<^verbatim>\<open>callback(currenttopic)\<close>, named here by the command and its arguments, and an
  errback that replies. A deferred is named by its identity; the first deferred of a
  waiter set also carries \<^verbatim>\<open>success\<close>, which cancels the timeout \<^verbatim>\<open>c\<close>.
\<close>

datatype edit =
    Append string
  | Insert int string
  | Replace int string
  | Remove int
  | Pop

record deferred =
  d_id :: nat
  d_timer :: "nat option"
  d_edit :: "edit option"

text \<open>
  \<open>topic_stack\<close> and \<open>topic_waiters\<close> are the two \<^verbatim>\<open>defaultdict\<close>s (a set of
  waiters is kept in the order the waiters were added); \<open>topic_timeouts\<close> are the
  reactor's pending \<^verbatim>\<open>failure\<close> calls with the channel each closes over;
  \<open>topic_queries\<close> are the \<^verbatim>\<open>irc.do_topic\<close> events sent, \<open>topic_requests\<close> the
  \<^verbatim>\<open>ircop.topic\<close> requests issued, \<open>topic_replies\<close> the replies; \<open>fired\<close> records
  every \<^verbatim>\<open>d.callback(topic)\<close>. \<open>topic_errors\<close> are the exceptions that no handler
  catches: one raised by a delayed call is logged by the reactor, one raised in a
  callback with no errback after it stays in its deferred and is logged with it.
\<close>

record topic_state =
  topic_stack :: "string \<Rightarrow> string list"
  topic_waiters :: "string \<Rightarrow> deferred list"
  topic_timeouts :: "(nat \<times> string) list"
  next_timeout :: nat
  next_deferred :: nat
  topic_queries :: "string list"
  topic_requests :: "(string \<times> string) list"
  topic_replies :: "string list"
  fired :: "(nat \<times> string) list"
  topic_errors :: "py_error list"

definition init_topic :: topic_state where
  "init_topic = \<lparr>topic_stack = (\<lambda>c. []), topic_waiters = (\<lambda>c. []), topic_timeouts = [],
     next_timeout = 0, next_deferred = 0, topic_queries = [], topic_requests = [],
     topic_replies = [], fired = [], topic_errors = []\<rparr>"

definition issue_topic :: "string \<Rightarrow> string \<Rightarrow> topic_state \<Rightarrow> topic_state" where
  "issue_topic channel newtopic s = s\<lparr>topic_requests := topic_requests s @ [(channel, newtopic)]\<rparr>"

definition topic_reply :: "string \<Rightarrow> topic_state \<Rightarrow> topic_state" where
  "topic_reply msg s = s\<lparr>topic_replies := topic_replies s @ [msg]\<rparr>"

definition only_parts :: "nat \<Rightarrow> string" where
  "only_parts n = ''There are only '' @ str_of_nat n @ '' topic parts. Remember indexes start at 0''"

definition append_callback :: "string \<Rightarrow> string \<Rightarrow> string \<Rightarrow> topic_state \<Rightarrow> topic_state" where
  "append_callback channel text currenttopic s =
     (let topic_parts = map strip (split_on CHR ''|'' (strip currenttopic))
      in issue_topic channel (join '' | '' (topic_parts @ [text])) s)"

definition insert_callback :: "string \<Rightarrow> int \<Rightarrow> string \<Rightarrow> string \<Rightarrow> topic_state \<Rightarrow> topic_state" where
  "insert_callback channel pos text currenttopic s =
     (let topic_parts = map strip (split_on CHR ''|'' currenttopic)
      in case py_insert topic_parts pos text of
           Inl e \<Rightarrow> s\<lparr>topic_errors := topic_errors s @ [e]\<rparr>
         | Inr parts \<Rightarrow> issue_topic channel (join '' | '' parts) s)"

definition replace_callback :: "string \<Rightarrow> int \<Rightarrow> string \<Rightarrow> string \<Rightarrow> topic_state \<Rightarrow> topic_state" where
  "replace_callback channel pos text currenttopic s =
     (let topic_parts = map strip (split_on CHR ''|'' currenttopic)
      in case py_setitem topic_parts pos text of
           None \<Rightarrow> topic_reply (only_parts (length topic_parts)) s
         | Some parts \<Rightarrow> issue_topic channel (join '' | '' parts) s)"

definition remove_callback :: "string \<Rightarrow> int \<Rightarrow> string \<Rightarrow> topic_state \<Rightarrow> topic_state" where
  "remove_callback channel pos currenttopic s =
     (let topic_parts = map strip (split_on CHR ''|'' currenttopic)
      in case py_delitem topic_parts pos of
           None \<Rightarrow> topic_reply (only_parts (length topic_parts)) s
         | Some parts \<Rightarrow> issue_topic channel (join '' | '' parts) s)"

definition pop_callback :: "string \<Rightarrow> string \<Rightarrow> topic_state \<Rightarrow> topic_state" where
  "pop_callback channel currenttopic s =
     (let topic_parts = map strip (split_on CHR ''|'' currenttopic)
      in case py_delitem topic_parts (- 1) of
           None \<Rightarrow> topic_reply (only_parts (length topic_parts)) s
         | Some parts \<Rightarrow> issue_topic channel (join '' | '' parts) s)"

definition edit_callback :: "string \<Rightarrow> edit \<Rightarrow> string \<Rightarrow> topic_state \<Rightarrow> topic_state" where
  "edit_callback channel ed currenttopic s =
     (case ed of
        Append text \<Rightarrow> append_callback channel text currenttopic s
      | Insert pos text \<Rightarrow> insert_callback channel pos text currenttopic s
      | Replace pos text \<Rightarrow> replace_callback channel pos text currenttopic s
      | Remove pos \<Rightarrow> remove_callback channel pos currenttopic s
      | Pop \<Rightarrow> pop_callback channel currenttopic s)"

text \<open>
  \<^verbatim>\<open>d.callback(newtopic)\<close> on a waiting deferred. The first deferred of a waiter set
  runs \<^verbatim>\<open>success\<close> first, which cancels the timeout \<^verbatim>\<open>c\<close>: \<^verbatim>\<open>c.cancel()\<close> raises
  \<^verbatim>\<open>AlreadyCalled\<close> when the reactor has run the call, and the failure goes to the
  errback the command added, which replies (with no errback added it stays in the
  deferred). Otherwise the command's callback runs with the topic.
\<close>

definition fire_callback :: "string \<Rightarrow> string \<Rightarrow> deferred \<Rightarrow> topic_state \<Rightarrow> topic_state" where
  "fire_callback channel newtopic d s =
     (let s1 = s\<lparr>fired := fired s @ [(d_id d, newtopic)]\<rparr>
      in case d_timer d of
           None \<Rightarrow>
             (case d_edit d of None \<Rightarrow> s1 | Some ed \<Rightarrow> edit_callback channel ed newtopic s1)
         | Some c \<Rightarrow>
             if filter (\<lambda>(i, ch). i = c) (topic_timeouts s1) = []
             then (case d_edit d of
                     None \<Rightarrow> s1\<lparr>topic_errors := topic_errors s1 @ [AlreadyCalled]\<rparr>
                   | Some ed \<Rightarrow> topic_reply ''Could not determine current topic'' s1)
             else (let s2 = s1\<lparr>topic_timeouts := filter (\<lambda>(i, ch). i \<noteq> c) (topic_timeouts s1)\<rparr>
                   in case d_edit d of
                        None \<Rightarrow> s2
                      | Some ed \<Rightarrow> edit_callback channel ed newtopic s2))"

definition on_event_irc_on_topic_updated :: "string \<Rightarrow> string \<Rightarrow> topic_state \<Rightarrow> topic_state" where
  "on_event_irc_on_topic_updated channel newtopic s =
     (let stack = topic_stack s channel;
          oldtopic = (if stack = [] then None else Some (last stack));
          s1 = (if Some newtopic \<noteq> oldtopic
                then s\<lparr>topic_stack := (topic_stack s)(channel := deque_append stack newtopic)\<rparr>
                else s);
          waiters = topic_waiters s1 channel;
          s2 = s1\<lparr>topic_waiters := (topic_waiters s1)(channel := [])\<rparr>
      in foldl (\<lambda>s d. fire_callback channel newtopic d s) s2 waiters)"

text \<open>
  The timeout of a topic fetch: the delayed call \<^verbatim>\<open>c = reactor.callLater(10, failure)\<close>,
  run by the reactor ten seconds after the first waiter of a set was added, unless
  \<^verbatim>\<open>success\<close> cancelled it (a call that is not pending never runs). \<^verbatim>\<open>callLater\<close> is
  given no argument for \<^verbatim>\<open>failure\<close>, so the reactor calls \<^verbatim>\<open>failure()\<close>; the function
  is declared \<^verbatim>\<open>def failure(_)\<close>, with one parameter, so the call raises \<^verbatim>\<open>TypeError\<close>
  before the body runs: \<^verbatim>\<open>self.topic_waiters.pop(channel, set())\<close> and the
  \<^verbatim>\<open>d.errback()\<close> of each waiter are never reached. The reactor logs the exception;
  the call has run and is no longer pending.
\<close>

definition failure :: "nat \<Rightarrow> topic_state \<Rightarrow> topic_state" where
  "failure c s =
     (case filter (\<lambda>(i, ch). i = c) (topic_timeouts s) of
        [] \<Rightarrow> s
      | (i, channel) # _ \<Rightarrow>
          s\<lparr>topic_timeouts := filter (\<lambda>(i, ch). i \<noteq> c) (topic_timeouts s),
            topic_errors := topic_errors s @ [TypeError]\<rparr>)"

text \<open>
  \<^verbatim>\<open>_get_current_topic\<close> returns a deferred: one that has fired with the newest topic
  of the history (\<open>Inl\<close>), or a new waiting one (\<open>Inr\<close>, its identity).
\<close>

definition get_current_topic :: "string \<Rightarrow> topic_state \<Rightarrow> (string + nat) \<times> topic_state" where
  "get_current_topic channel s =
     (let stack = topic_stack s channel in
      if stack \<noteq> [] then (Inl (last stack), s)
      else
        (let s1 = s\<lparr>topic_queries := topic_queries s @ [channel]\<rparr>;
             deferreds = topic_waiters s1 channel;
             new_d = next_deferred s1;
             s2 = s1\<lparr>next_deferred := Suc new_d\<rparr>
         in if deferreds = [] then
              (let c = next_timeout s2;
                   s3 = s2\<lparr>topic_timeouts := topic_timeouts s2 @ [(c, channel)],
                          next_timeout := Suc c\<rparr>
               in (Inr new_d,
                   s3\<lparr>topic_waiters := (topic_waiters s3)
                        (channel := deferreds @ [\<lparr>d_id = new_d, d_timer = Some c, d_edit = None\<rparr>])\<rparr>))
            else
              (Inr new_d,
               s2\<lparr>topic_waiters := (topic_waiters s2)
                    (channel := deferreds @ [\<lparr>d_id = new_d, d_timer = None, d_edit = None\<rparr>])\<rparr>)))"

text \<open>
  \<^verbatim>\<open>.addCallbacks(callback, errback)\<close> on the deferred returned: on a fired one the
  callback runs at once, on a waiting one the callbacks are kept with it.
\<close>

definition add_callbacks :: "string \<Rightarrow> edit \<Rightarrow> (string + nat) \<Rightarrow> topic_state \<Rightarrow> topic_state" where
  "add_callbacks channel ed d s =
     (case d of
        Inl currenttopic \<Rightarrow> edit_callback channel ed currenttopic s
      | Inr i \<Rightarrow>
          s\<lparr>topic_waiters := (topic_waiters s)
              (channel := map (\<lambda>w. if d_id w = i then w\<lparr>d_edit := Some ed\<rparr> else w)
                            (topic_waiters s channel))\<rparr>)"

definition topic_command :: "string \<Rightarrow> edit \<Rightarrow> topic_state \<Rightarrow> topic_state" where
  "topic_command channel ed s =
     (case get_current_topic channel s of (d, s1) \<Rightarrow> add_callbacks channel ed d s1)"

definition topicappend :: "string \<Rightarrow> string \<Rightarrow> topic_state \<Rightarrow> topic_state" where
  "topicappend channel text s = topic_command channel (Append text) s"

definition topicinsert :: "string \<Rightarrow> int \<Rightarrow> string \<Rightarrow> topic_state \<Rightarrow> topic_state" where
  "topicinsert channel pos text s = topic_command channel (Insert pos text) s"

definition topicreplace :: "string \<Rightarrow> int \<Rightarrow> string \<Rightarrow> topic_state \<Rightarrow> topic_state" where
  "topicreplace channel pos text s = topic_command channel (Replace pos text) s"

definition topicremove :: "string \<Rightarrow> int \<Rightarrow> topic_state \<Rightarrow> topic_state" where
  "topicremove channel pos s = topic_command channel (Remove pos) s"

definition topicpop :: "string \<Rightarrow> topic_state \<Rightarrow> topic_state" where
  "topicpop channel s = topic_command channel Pop s"

definition topic_undo :: "string \<Rightarrow> topic_state \<Rightarrow> topic_state" where
  "topic_undo channel s =
     (let topicstack = topic_stack s channel in
      if length topicstack < 2
      then topic_reply (''I don'' @ [CHR 0x27] @ ''t know what the topic used to be. Cannot undo =('') s
      else
        (let newtopic = last (butlast topicstack);
             s1 = s\<lparr>topic_stack := (topic_stack s)(channel := butlast (butlast topicstack))\<rparr>
         in issue_topic channel newtopic s1))"

datatype topic_op =
    TopicUpdated string string
  | TopicTimeout nat
  | TopicEdit string edit
  | TopicUndo string

fun topic_step :: "topic_op \<Rightarrow> topic_state \<Rightarrow> topic_state" where
  "topic_step (TopicUpdated channel newtopic) s = on_event_irc_on_topic_updated channel newtopic s"
| "topic_step (TopicTimeout c) s = failure c s"
| "topic_step (TopicEdit channel ed) s = topic_command channel ed s"
| "topic_step (TopicUndo channel) s = topic_undo channel s"

definition run_topic :: "topic_op list \<Rightarrow> topic_state \<Rightarrow> topic_state" where
  "run_topic ops s = foldl (\<lambda>s op. topic_step op s) s ops"

section \<open>Permissions by whois (auth.py, Auth)\<close>

text \<open>
  \<open>waiting\<close> is the \<^verbatim>\<open>defaultdict(set)\<close> from hostmasks to the deferreds to call (a
  key can be present with no deferred: reading a missing key adds it); a deferred is
  named by its identity and a set is kept in the order of its additions.
  \<open>permissions\<close> is the \<^verbatim>\<open>defaultdict(list)\<close>, \<open>config_perms\<close> is
  \<^verbatim>\<open>config['perms']\<close>. \<open>whois_sent\<close> are the nicknames of the \<^verbatim>\<open>irc.do_whois\<close>
  events sent, \<open>fail_timers\<close> the reactor's pending calls of \<^verbatim>\<open>_fail_request\<close> with
  their hostmask, and \<open>called\<close> records every \<^verbatim>\<open>deferred.callback(perms)\<close>.
\<close>

record auth_state =
  authd_users :: "string \<rightharpoonup> string"
  nick_hostmasks :: "string \<rightharpoonup> string"
  waiting :: "string \<rightharpoonup> nat list"
  permissions :: "string \<Rightarrow> string list"
  config_perms :: "string \<rightharpoonup> string list"
  whois_sent :: "string list"
  fail_timers :: "(nat \<times> string) list"
  next_fail_timer :: nat
  next_waiter :: nat
  called :: "(nat \<times> string list) list"

definition init_auth :: auth_state where
  "init_auth = \<lparr>authd_users = Map.empty, nick_hostmasks = Map.empty, waiting = Map.empty,
     permissions = (\<lambda>a. []), config_perms = Map.empty, whois_sent = [], fail_timers = [],
     next_fail_timer = 0, next_waiter = 0, called = []\<rparr>"

definition check_ready :: "string \<Rightarrow> auth_state \<Rightarrow> auth_state" where
  "check_ready hostmask s =
     (case waiting s hostmask of
        None \<Rightarrow> s\<lparr>waiting := (waiting s)(hostmask \<mapsto> [])\<rparr>
      | Some deferreds \<Rightarrow>
          if deferreds = [] then s
          else (case authd_users s hostmask of
                  None \<Rightarrow> s
                | Some authname \<Rightarrow>
                    (let perms = permissions s authname
                     in s\<lparr>called := called s @ map (\<lambda>d. (d, perms)) deferreds,
                          waiting := (waiting s)(hostmask := None)\<rparr>)))"

definition fail_request :: "string \<Rightarrow> auth_state \<Rightarrow> auth_state" where
  "fail_request hostmask s =
     (case waiting s hostmask of
        None \<Rightarrow> s\<lparr>waiting := (waiting s)(hostmask \<mapsto> [])\<rparr>
      | Some deferreds \<Rightarrow>
          if deferreds \<noteq> []
          then s\<lparr>called := called s @ map (\<lambda>d. (d, [])) deferreds,
                 waiting := (waiting s)(hostmask := None)\<rparr>
          else s)"

text \<open>
  \<^verbatim>\<open>_get_permissions\<close> returns a deferred: one that has fired with the permissions
  (\<open>Inl\<close>), or a new waiting one (\<open>Inr\<close>, its identity).
\<close>

definition get_permissions :: "string \<Rightarrow> auth_state \<Rightarrow> (string list + nat) \<times> auth_state" where
  "get_permissions hostmask s =
     (case authd_users s hostmask of
        Some authname \<Rightarrow>
          (Inl (case config_perms s authname of None \<Rightarrow> [] | Some perms \<Rightarrow> perms), s)
      | None \<Rightarrow>
          (let deferred = next_waiter s in
           case waiting s hostmask of
             Some deferreds \<Rightarrow>
               (Inr deferred,
                s\<lparr>waiting := (waiting s)(hostmask \<mapsto> deferreds @ [deferred]),
                  next_waiter := Suc deferred\<rparr>)
           | None \<Rightarrow>
               (Inr deferred,
                s\<lparr>waiting := (waiting s)(hostmask \<mapsto> [deferred]),
                  next_waiter := Suc deferred,
                  whois_sent := whois_sent s @ [split_first CHR ''!'' hostmask],
                  fail_timers := fail_timers s @ [(next_fail_timer s, hostmask)],
                  next_fail_timer := Suc (next_fail_timer s)\<rparr>)))"

definition on_event_irc_on_unknown :: "string \<Rightarrow> string list \<Rightarrow> auth_state \<Rightarrow> py_error + auth_state" where
  "on_event_irc_on_unknown command params s =
     (if command = ''RPL_WHOISUSER'' then
        (if length params < 4 then Inl IndexError
         else (let nick = params ! 1; user = params ! 2; host = params ! 3
               in Inr (s\<lparr>nick_hostmasks := (nick_hostmasks s)
                          (nick \<mapsto> nick @ ''!'' @ user @ ''@'' @ host)\<rparr>)))
      else if command = ''330'' then
        (if length params < 3 then Inl IndexError
         else (let nick = params ! 1; authname = params ! 2
               in case nick_hostmasks s nick of
                    None \<Rightarrow> Inr s
                  | Some hostmask \<Rightarrow>
                      Inr (check_ready hostmask
                             (s\<lparr>nick_hostmasks := (nick_hostmasks s)(nick := None),
                                authd_users := (authd_users s)(hostmask \<mapsto> authname)\<rparr>))))
      else Inr s)"

text \<open>The reactor calls a pending \<^verbatim>\<open>_fail_request\<close>; the calls are never cancelled.\<close>

definition fire_fail_timer :: "nat \<Rightarrow> auth_state \<Rightarrow> auth_state" where
  "fire_fail_timer c s =
     (case filter (\<lambda>(i, h). i = c) (fail_timers s) of
        [] \<Rightarrow> s
      | (i, hostmask) # _ \<Rightarrow>
          fail_request hostmask (s\<lparr>fail_timers := filter (\<lambda>(i, h). i \<noteq> c) (fail_timers s)\<rparr>))"

datatype auth_op =
    GetPermissions string
  | Unknown string "string list"
  | FailTimer nat

fun auth_step :: "auth_op \<Rightarrow> auth_state \<Rightarrow> auth_state" where
  "auth_step (GetPermissions hostmask) s = snd (get_permissions hostmask s)"
| "auth_step (Unknown command params) s =
     (case on_event_irc_on_unknown command params s of Inl _ \<Rightarrow> s | Inr s' \<Rightarrow> s')"
| "auth_step (FailTimer c) s = fire_fail_timer c s"

definition run_auth :: "auth_op list \<Rightarrow> auth_state \<Rightarrow> auth_state" where
  "run_auth ops s = foldl (\<lambda>s op. auth_step op s) s ops"

definition waiters_of :: "auth_state \<Rightarrow> string \<Rightarrow> nat list" where
  "waiters_of s hostmask = (case waiting s hostmask of None \<Rightarrow> [] | Some ds \<Rightarrow> ds)"

text \<open>
  The state of a set of waiters per key: no waiter waits under two keys or twice under
  one, none that waits has been resolved, and the waiters resolved so far are distinct
  and older than the next one. \<open>w\<close> gives the waiters of each key, \<open>n\<close> is the next
  identity and \<open>r\<close> the waiters resolved, in order.
\<close>

definition broker_inv :: "(string \<Rightarrow> nat list) \<Rightarrow> nat \<Rightarrow> nat list \<Rightarrow> bool" where
  "broker_inv w n r =
     ((\<forall>k. distinct (w k) \<and> (\<forall>d \<in> set (w k). d < n \<and> d \<notin> set r))
      \<and> (\<forall>k k'. k \<noteq> k' \<longrightarrow> set (w k) \<inter> set (w k') = {})
      \<and> distinct r
      \<and> (\<forall>d \<in> set r. d < n))"

definition auth_inv :: "auth_state \<Rightarrow> bool" where
  "auth_inv s = broker_inv (waiters_of s) (next_waiter s) (map fst (called s))"

definition topic_waiter_ids :: "topic_state \<Rightarrow> string \<Rightarrow> nat list" where
  "topic_waiter_ids s channel = map d_id (topic_waiters s channel)"

definition topic_inv :: "topic_state \<Rightarrow> bool" where
  "topic_inv s = broker_inv (topic_waiter_ids s) (next_deferred s) (map fst (fired s))"

text \<open>
  Every waiter of the permission lookup has its timeout: the reactor's pending
  timeouts have distinct identities, older than the next one, and whenever a deferred
  waits under a hostmask a timeout for the hostmask is pending. This rests on three
  more facts: a hostmask present in \<open>waiting\<close> with no deferred is authenticated, a
  pending timeout of a hostmask that is not authenticated has waiters, and such a
  hostmask has one pending timeout at most.
\<close>

definition auth_live :: "auth_state \<Rightarrow> bool" where
  "auth_live s =
     (distinct (map fst (fail_timers s))
      \<and> (\<forall>x \<in> set (fail_timers s). fst x < next_fail_timer s)
      \<and> (\<forall>h. waiters_of s h \<noteq> [] \<longrightarrow> h \<in> snd ` set (fail_timers s))
      \<and> (\<forall>h. waiting s h = Some [] \<longrightarrow> authd_users s h \<noteq> None)
      \<and> (\<forall>h. h \<in> snd ` set (fail_timers s) \<longrightarrow> authd_users s h = None
             \<longrightarrow> waiters_of s h \<noteq> [])
      \<and> (\<forall>c c' h. (c, h) \<in> set (fail_timers s) \<longrightarrow> (c', h) \<in> set (fail_timers s)
             \<longrightarrow> authd_users s h = None \<longrightarrow> c = c'))"

section \<open>Facts about duration parsing\<close>

lemma parse_time_examples:
  "parse_time ''1h30m'' = 5400 \<and> parse_time ''2d'' = 172800 \<and> parse_time '''' = 0
   \<and> parse_time ''10m'' = 600 \<and> parse_time ''12x3s'' = 3"
  by (simp add: parse_time_def is_digit_def is_unit_def int_of_digits_def digit_val_def
      multipliers_def)

section \<open>The timer registry stays consistent\<close>

lemma item_matches_simp [simp]:
  "item_matches (h, c, m) (t, h', c', m') = (h' = h \<and> c' = c \<and> m' = m)"
  by (simp add: item_matches_def)

lemma item_matches_unique:
  "item_matches k item \<Longrightarrow> item_matches k' item \<Longrightarrow> k = k'"
  by (cases k; cases k'; cases item) (auto simp: item_matches_def)

lemma filter_matches_removed:
  "filter (\<lambda>i. \<not> item_matches k i \<and> item_matches k' i) xs
     = (if k' = k then [] else filter (item_matches k') xs)"
  by (induction xs) (auto dest: item_matches_unique)

lemma set_cancel_call [simp]:
  "set (cancel_call t cs) = {c \<in> set cs. call_id c \<noteq> t}"
  by (auto simp: cancel_call_def)

lemma distinct_cancel_call:
  "distinct (map call_id cs) \<Longrightarrow> distinct (map call_id (cancel_call t cs))"
  by (simp add: cancel_call_def distinct_map_filter)

lemma set_timer_fields:
  "later_timers (set_timer d h c m s) = (later_timers s)((h, c, m) \<mapsto> next_call s)"
  "pending_calls (set_timer d h c m s) =
     uncancel (later_timers s (h, c, m)) (pending_calls s)
       @ [\<lparr>call_id = next_call s, call_delay = max 1 d, call_key = (h, c, m)\<rparr>]"
  "laters (set_timer d h c m s) =
     filter (\<lambda>i. \<not> item_matches (h, c, m) i) (laters s) @ [(clock s + d, h, c, m)]"
  "saved_laters (set_timer d h c m s) = laters (set_timer d h c m s)"
  "next_call (set_timer d h c m s) = Suc (next_call s)"
  "clock (set_timer d h c m s) = clock s"
  "requests (set_timer d h c m s) = requests s"
  "replies (set_timer d h c m s) = replies s"
  "sent_msgs (set_timer d h c m s) = sent_msgs s"
  by (auto simp: set_timer_def call_later_def Let_def uncancel_def split: option.splits)

lemma admin_inv_init: "admin_inv init_admin"
  by (simp add: admin_inv_def init_admin_def)

lemma admin_inv_set_timer:
  assumes "admin_inv s"
  shows "admin_inv (set_timer d h c m s)"
proof -
  let ?k = "(h, c, m)"
  let ?s = "set_timer d h c m s"
  have p: "call_id x < next_call s \<and> later_timers s (call_key x) = Some (call_id x)"
    if "x \<in> set (pending_calls s)" for x
    using assms that by (simp add: admin_inv_def)
  have dist: "distinct (map call_id (pending_calls s))"
    using assms by (simp add: admin_inv_def)
  have reg: "\<exists>x \<in> set (pending_calls s). call_id x = t \<and> call_key x = k"
    if "later_timers s k = Some t" for k t
    using assms that unfolding admin_inv_def by blast
  have one: "length (filter (item_matches k) (laters s))
          = (if later_timers s k = None then 0 else 1)" for k
    using assms unfolding admin_inv_def by blast
  have sub: "set (uncancel (later_timers s ?k) (pending_calls s)) \<subseteq> set (pending_calls s)"
    by (auto simp: uncancel_def split: option.splits)
  have nokey: "call_key x \<noteq> ?k" if "x \<in> set (uncancel (later_timers s ?k) (pending_calls s))" for x
  proof
    assume k: "call_key x = ?k"
    from that sub have xin: "x \<in> set (pending_calls s)" by blast
    with p k have "later_timers s ?k = Some (call_id x)" by metis
    with that show False by (simp add: uncancel_def)
  qed
  have c1: "\<forall>x \<in> set (pending_calls ?s). call_id x < next_call ?s
          \<and> later_timers ?s (call_key x) = Some (call_id x)"
  proof
    fix x assume "x \<in> set (pending_calls ?s)"
    then consider "x \<in> set (uncancel (later_timers s ?k) (pending_calls s))"
      | "x = \<lparr>call_id = next_call s, call_delay = max 1 d, call_key = ?k\<rparr>"
      by (auto simp: set_timer_fields)
    then show "call_id x < next_call ?s \<and> later_timers ?s (call_key x) = Some (call_id x)"
    proof cases
      case 1
      with sub have "x \<in> set (pending_calls s)" by blast
      with p [of x] nokey [OF 1] show ?thesis
        by (simp add: set_timer_fields)
    next
      case 2
      then show ?thesis by (simp add: set_timer_fields)
    qed
  qed
  have c2: "distinct (map call_id (pending_calls ?s))"
  proof -
    have "distinct (map call_id (uncancel (later_timers s ?k) (pending_calls s)))"
      using dist by (simp add: uncancel_def distinct_cancel_call split: option.splits)
    moreover have "next_call s \<notin> call_id ` set (uncancel (later_timers s ?k) (pending_calls s))"
      using sub p by fastforce
    ultimately show ?thesis by (simp add: set_timer_fields)
  qed
  have c3: "\<forall>k t. later_timers ?s k = Some t \<longrightarrow>
          (\<exists>x \<in> set (pending_calls ?s). call_id x = t \<and> call_key x = k)"
  proof (intro allI impI)
    fix k t assume a: "later_timers ?s k = Some t"
    show "\<exists>x \<in> set (pending_calls ?s). call_id x = t \<and> call_key x = k"
    proof (cases "k = ?k")
      case True
      with a show ?thesis by (simp add: set_timer_fields)
    next
      case False
      with a have "later_timers s k = Some t" by (simp add: set_timer_fields)
      from reg [OF this] obtain x where x: "x \<in> set (pending_calls s)" "call_id x = t" "call_key x = k"
        by blast
      have "x \<in> set (uncancel (later_timers s ?k) (pending_calls s))"
      proof (cases "later_timers s ?k")
        case None
        with x show ?thesis by (simp add: uncancel_def)
      next
        case (Some t')
        from reg [OF Some] obtain y where y: "y \<in> set (pending_calls s)" "call_id y = t'" "call_key y = ?k"
          by blast
        have "call_id x \<noteq> t'"
        proof
          assume "call_id x = t'"
          with x y dist have "x = y" by (metis distinct_map inj_on_def)
          with x y False show False by simp
        qed
        with x Some show ?thesis by (simp add: uncancel_def)
      qed
      with x show ?thesis by (auto simp: set_timer_fields)
    qed
  qed
  have c4: "\<forall>k. length (filter (item_matches k) (laters ?s))
          = (if later_timers ?s k = None then 0 else 1)"
  proof
    fix k
    show "length (filter (item_matches k) (laters ?s))
          = (if later_timers ?s k = None then 0 else 1)"
    proof (cases "k = ?k")
      case True
      then show ?thesis by (simp add: set_timer_fields filter_matches_removed)
    next
      case False
      then have "\<not> item_matches k (clock s + d, h, c, m)"
        by (cases k) auto
      with False one [of k] show ?thesis
        by (simp add: set_timer_fields filter_matches_removed)
    qed
  qed
  show ?thesis
    unfolding admin_inv_def using c1 c2 c3 c4 by (simp add: set_timer_fields)
qed


lemma admin_inv_frame [simp]:
  "admin_inv (s\<lparr>requests := r\<rparr>) = admin_inv s"
  "admin_inv (s\<lparr>sent_msgs := ms\<rparr>) = admin_inv s"
  "admin_inv (s\<lparr>replies := rs\<rparr>) = admin_inv s"
  "admin_inv (s\<lparr>clock := n\<rparr>) = admin_inv s"
  by (simp_all add: admin_inv_def)

lemma admin_inv_drop_key:
  assumes "admin_inv s" and "later_timers s k = Some t"
  shows "admin_inv (drop_key k t s)"
proof -
  have p: "call_id x < next_call s \<and> later_timers s (call_key x) = Some (call_id x)"
    if "x \<in> set (pending_calls s)" for x
    using assms(1) that by (simp add: admin_inv_def)
  have dist: "distinct (map call_id (pending_calls s))"
    using assms(1) by (simp add: admin_inv_def)
  have reg: "\<exists>x \<in> set (pending_calls s). call_id x = t' \<and> call_key x = k'"
    if "later_timers s k' = Some t'" for k' t'
    using assms(1) that unfolding admin_inv_def by blast
  have one: "length (filter (item_matches k') (laters s))
          = (if later_timers s k' = None then 0 else 1)" for k'
    using assms(1) unfolding admin_inv_def by blast
  have c1: "\<forall>x \<in> set (pending_calls (drop_key k t s)). call_id x < next_call (drop_key k t s)
          \<and> later_timers (drop_key k t s) (call_key x) = Some (call_id x)"
  proof
    fix x assume "x \<in> set (pending_calls (drop_key k t s))"
    then have x: "x \<in> set (pending_calls s)" "call_id x \<noteq> t"
      by (auto simp: drop_key_def)
    with p [of x] assms(2) have "call_key x \<noteq> k" by auto
    with p [of x] x show "call_id x < next_call (drop_key k t s)
          \<and> later_timers (drop_key k t s) (call_key x) = Some (call_id x)"
      by (simp add: drop_key_def)
  qed
  have c2: "distinct (map call_id (pending_calls (drop_key k t s)))"
    using dist by (simp add: drop_key_def distinct_cancel_call)
  have c3: "\<forall>k' t'. later_timers (drop_key k t s) k' = Some t' \<longrightarrow>
          (\<exists>x \<in> set (pending_calls (drop_key k t s)). call_id x = t' \<and> call_key x = k')"
  proof (intro allI impI)
    fix k' t' assume a: "later_timers (drop_key k t s) k' = Some t'"
    then have ne: "k' \<noteq> k" and l: "later_timers s k' = Some t'"
      by (auto simp: drop_key_def split: if_splits)
    from reg [OF l] obtain x where x: "x \<in> set (pending_calls s)" "call_id x = t'" "call_key x = k'"
      by blast
    from reg [OF assms(2)] obtain y where y: "y \<in> set (pending_calls s)" "call_id y = t" "call_key y = k"
      by blast
    have "call_id x \<noteq> t"
    proof
      assume "call_id x = t"
      with x y dist have "x = y" by (metis distinct_map inj_on_def)
      with x y ne show False by simp
    qed
    with x show "\<exists>x \<in> set (pending_calls (drop_key k t s)). call_id x = t' \<and> call_key x = k'"
      by (auto simp: drop_key_def)
  qed
  have c4: "\<forall>k'. length (filter (item_matches k') (laters (drop_key k t s)))
          = (if later_timers (drop_key k t s) k' = None then 0 else 1)"
  proof
    fix k'
    show "length (filter (item_matches k') (laters (drop_key k t s)))
          = (if later_timers (drop_key k t s) k' = None then 0 else 1)"
      using one [of k'] by (cases "k' = k") (simp_all add: drop_key_def filter_matches_removed)
  qed
  show ?thesis
    unfolding admin_inv_def using c1 c2 c3 c4 by (simp add: drop_key_def)
qed

lemma on_mode_change_eq:
  "on_event_irc_on_mode_change ev s =
     (if ev_set ev then s
      else (case later_timers s (ev_arg ev, ev_channel ev, ev_mode ev) of
              None \<Rightarrow> s
            | Some t \<Rightarrow> drop_key (ev_arg ev, ev_channel ev, ev_mode ev) t s))"
  by (simp add: on_event_irc_on_mode_change_def drop_key_def Let_def split: option.splits)

lemma admin_inv_on_mode_change:
  "admin_inv s \<Longrightarrow> admin_inv (on_event_irc_on_mode_change ev s)"
  by (simp add: on_mode_change_eq admin_inv_drop_key split: option.splits)

lemma do_later_state:
  assumes "later_timers s k = Some t"
  shows "\<exists>ms. snd (do_later e k s) =
     (s\<lparr>later_timers := (later_timers s)(k := None),
        laters := filter (\<lambda>item. \<not> item_matches k item) (laters s),
        saved_laters := filter (\<lambda>item. \<not> item_matches k item) (laters s),
        requests := requests s @ [reversal k],
        sent_msgs := sent_msgs s @ ms\<rparr>)"
proof -
  obtain h c m where k: "k = (h, c, m)" by (cases k)
  show ?thesis
  proof (cases "e (requests s) (Mode c (''-'' @ m) h)")
    case (Inr v)
    with assms k show ?thesis
      by (intro exI [of _ "[]"]) (simp add: do_later_def issue_request_def reversal_def)
  next
    case (Inl x)
    show ?thesis
    proof (cases x)
      case (OpFailed msg)
      show ?thesis
      proof (cases "mode_word m")
        case None
        with assms k Inl OpFailed show ?thesis
          by (intro exI [of _ "[]"]) (simp add: do_later_def issue_request_def reversal_def)
      next
        case (Some w)
        with assms k Inl OpFailed show ?thesis
          by (intro exI [of _ "[(c, ''I was about to un-'' @ w @ '' '' @ h @ '', but '' @ msg)]"])
            (simp add: do_later_def issue_request_def reversal_def)
      qed
    qed (use assms k Inl in \<open>(intro exI [of _ "[]"], simp add: do_later_def issue_request_def reversal_def)+\<close>)
  qed
qed

lemma fire_call_not_pending:
  "timer \<notin> call_id ` set (pending_calls s) \<Longrightarrow> fire_call e timer s = (Inr (), s)"
proof -
  assume "timer \<notin> call_id ` set (pending_calls s)"
  then have "filter (\<lambda>c. call_id c = timer) (pending_calls s) = []"
    by (auto simp: filter_empty_conv)
  then show ?thesis by (simp add: fire_call_def)
qed

lemma filter_id_single:
  "distinct (map f xs) \<Longrightarrow> x \<in> set xs \<Longrightarrow> filter (\<lambda>c. f c = f x) xs = [x]"
proof (induction xs)
  case Nil
  then show ?case by simp
next
  case (Cons a as)
  show ?case
  proof (cases "a = x")
    case True
    with Cons.prems have "f x \<notin> f ` set as" by simp
    then have "filter (\<lambda>c. f c = f x) as = []"
      unfolding filter_empty_conv by (metis imageI)
    with True show ?thesis by simp
  next
    case False
    with Cons.prems have "x \<in> set as" "f a \<notin> f ` set as" by auto
    then have "f a \<noteq> f x" by auto
    with Cons False \<open>x \<in> set as\<close> show ?thesis by simp
  qed
qed

lemma fire_call_state:
  assumes "admin_inv s" and "x \<in> set (pending_calls s)"
  shows "\<exists>ms. snd (fire_call e (call_id x) s) =
     (drop_key (call_key x) (call_id x) s)\<lparr>requests := requests s @ [reversal (call_key x)],
        sent_msgs := sent_msgs s @ ms\<rparr>"
proof -
  have dist: "distinct (map call_id (pending_calls s))"
    using assms(1) by (simp add: admin_inv_def)
  have reg: "later_timers s (call_key x) = Some (call_id x)"
    using assms by (simp add: admin_inv_def)
  have f: "filter (\<lambda>c. call_id c = call_id x) (pending_calls s) = [x]"
    using dist assms(2) by (rule filter_id_single)
  let ?s = "s\<lparr>pending_calls := cancel_call (call_id x) (pending_calls s)\<rparr>"
  have "later_timers ?s (call_key x) = Some (call_id x)"
    using reg by simp
  from do_later_state [OF this, of e] obtain ms where
    "snd (do_later e (call_key x) ?s) =
     (?s\<lparr>later_timers := (later_timers ?s)(call_key x := None),
        laters := filter (\<lambda>item. \<not> item_matches (call_key x) item) (laters ?s),
        saved_laters := filter (\<lambda>item. \<not> item_matches (call_key x) item) (laters ?s),
        requests := requests ?s @ [reversal (call_key x)],
        sent_msgs := sent_msgs ?s @ ms\<rparr>)"
    by blast
  with f show ?thesis
    by (intro exI [of _ ms]) (simp add: fire_call_def drop_key_def)
qed

lemma admin_inv_fire_call:
  assumes "admin_inv s"
  shows "admin_inv (snd (fire_call e timer s))"
proof (cases "timer \<in> call_id ` set (pending_calls s)")
  case False
  with assms show ?thesis by (simp add: fire_call_not_pending)
next
  case True
  then obtain x where x: "x \<in> set (pending_calls s)" "timer = call_id x" by auto
  from fire_call_state [OF assms x(1), of e] obtain ms where
    eq: "snd (fire_call e (call_id x) s) =
     (drop_key (call_key x) (call_id x) s)\<lparr>requests := requests s @ [reversal (call_key x)],
        sent_msgs := sent_msgs s @ ms\<rparr>"
    by blast
  have "later_timers s (call_key x) = Some (call_id x)"
    using assms x by (simp add: admin_inv_def)
  from admin_inv_drop_key [OF assms this] show ?thesis
    unfolding x(2) eq by simp
qed

lemma admin_inv_step: "admin_inv s \<Longrightarrow> admin_inv (admin_step e op s)"
  by (cases op) (simp_all add: admin_inv_set_timer admin_inv_fire_call admin_inv_on_mode_change)

lemma admin_inv_run: "admin_inv s \<Longrightarrow> admin_inv (run_admin e ops s)"
  unfolding run_admin_def by (induction ops arbitrary: s) (simp_all add: admin_inv_step)

section \<open>Setting a timer replaces the one before\<close>

lemma length_le_one_same_id:
  "distinct (map f xs) \<Longrightarrow> \<forall>x \<in> set xs. f x = a \<Longrightarrow> length xs \<le> 1"
  by (cases xs; cases "tl xs") auto

lemma admin_inv_one_pending:
  assumes "admin_inv s"
  shows "length (filter (\<lambda>x. call_key x = k) (pending_calls s)) \<le> 1"
proof (cases "later_timers s k")
  case None
  have "filter (\<lambda>x. call_key x = k) (pending_calls s) = []"
    unfolding filter_empty_conv
  proof (intro ballI notI)
    fix x assume "x \<in> set (pending_calls s)" "call_key x = k"
    with assms have "later_timers s k = Some (call_id x)" by (auto simp: admin_inv_def)
    with None show False by simp
  qed
  then show ?thesis by simp
next
  case (Some t)
  have "distinct (map call_id (filter (\<lambda>x. call_key x = k) (pending_calls s)))"
    using assms by (simp add: admin_inv_def distinct_map_filter)
  moreover have "\<forall>x \<in> set (filter (\<lambda>x. call_key x = k) (pending_calls s)). call_id x = t"
    using assms Some by (auto simp: admin_inv_def)
  ultimately show ?thesis by (rule length_le_one_same_id)
qed

lemma admin_inv_one_later:
  assumes "admin_inv s"
  shows "length (filter (item_matches k) (laters s)) \<le> 1"
proof -
  have "length (filter (item_matches k) (laters s)) = (if later_timers s k = None then 0 else 1)"
    using assms unfolding admin_inv_def by blast
  then show ?thesis by (simp split: if_splits)
qed

lemma set_uncancel_subset: "set (uncancel old cs) \<subseteq> set cs"
  by (auto simp: uncancel_def split: option.splits)

lemma set_timer_pending_for_key:
  assumes "admin_inv s"
  shows "filter (\<lambda>x. call_key x = (h, c, m)) (pending_calls (set_timer d h c m s))
     = [\<lparr>call_id = next_call s, call_delay = max 1 d, call_key = (h, c, m)\<rparr>]"
proof -
  have "filter (\<lambda>x. call_key x = (h, c, m)) (uncancel (later_timers s (h, c, m)) (pending_calls s)) = []"
    unfolding filter_empty_conv
  proof (intro ballI notI)
    fix x assume x: "x \<in> set (uncancel (later_timers s (h, c, m)) (pending_calls s))"
      and k: "call_key x = (h, c, m)"
    from x set_uncancel_subset have "x \<in> set (pending_calls s)" by blast
    with assms k have "later_timers s (h, c, m) = Some (call_id x)" by (auto simp: admin_inv_def)
    with x show False by (simp add: uncancel_def)
  qed
  then show ?thesis by (simp add: set_timer_fields)
qed

lemma set_timer_old_cancelled:
  assumes "admin_inv s" and "later_timers s (h, c, m) = Some t"
  shows "t \<notin> call_id ` set (pending_calls (set_timer d h c m s))"
proof -
  from assms have "\<exists>x \<in> set (pending_calls s). call_id x = t" unfolding admin_inv_def by blast
  with assms(1) have "t < next_call s" by (auto simp: admin_inv_def)
  with assms(2) show ?thesis by (auto simp: set_timer_fields uncancel_def)
qed

text \<open>
  C4. Whatever happened before (any run of the registry from a consistent state),
  setting a timer for a key leaves exactly one pending delayed call for that key, the
  new one, armed with \<open>max 1 delay\<close>, and exactly one persisted entry for it, the new
  one, saved; the timer the dictionary held for the key before is no longer pending.
  Before and after, no key has more than one pending call or more than one persisted
  entry.
\<close>

theorem set_timer_latest_survives:
  assumes "admin_inv s0"
  shows "let s = run_admin e ops s0; s' = set_timer d h c m s; k = (h, c, m) in
     later_timers s' k = Some (next_call s)
     \<and> filter (\<lambda>x. call_key x = k) (pending_calls s')
         = [\<lparr>call_id = next_call s, call_delay = max 1 d, call_key = k\<rparr>]
     \<and> filter (item_matches k) (laters s') = [(clock s + d, h, c, m)]
     \<and> saved_laters s' = laters s'
     \<and> (\<forall>t. later_timers s k = Some t \<longrightarrow> t \<notin> call_id ` set (pending_calls s'))
     \<and> (\<forall>k'. length (filter (\<lambda>x. call_key x = k') (pending_calls s)) \<le> 1
             \<and> length (filter (item_matches k') (laters s)) \<le> 1
             \<and> length (filter (\<lambda>x. call_key x = k') (pending_calls s')) \<le> 1
             \<and> length (filter (item_matches k') (laters s')) \<le> 1)"
proof -
  define s where "s = run_admin e ops s0"
  have inv: "admin_inv s" unfolding s_def using assms by (rule admin_inv_run)
  have inv': "admin_inv (set_timer d h c m s)" using inv by (rule admin_inv_set_timer)
  have a: "later_timers (set_timer d h c m s) (h, c, m) = Some (next_call s)"
    by (simp add: set_timer_fields)
  have b: "filter (item_matches (h, c, m)) (laters (set_timer d h c m s)) = [(clock s + d, h, c, m)]"
    by (simp add: set_timer_fields filter_matches_removed)
  have c: "saved_laters (set_timer d h c m s) = laters (set_timer d h c m s)"
    by (simp add: set_timer_fields)
  show ?thesis
    unfolding Let_def s_def [symmetric]
    using a b c set_timer_pending_for_key [OF inv] set_timer_old_cancelled [OF inv]
      admin_inv_one_pending [OF inv] admin_inv_one_later [OF inv]
      admin_inv_one_pending [OF inv'] admin_inv_one_later [OF inv']
    by blast
qed

theorem set_timer_latest_survives_witness:
  "admin_inv init_admin \<and>
   (let s = run_admin (\<lambda>hist r. Inr []) [SetTimer 600 ''*!*@h'' ''#c'' ''b'', Tick 5] init_admin;
        s' = set_timer 0 ''*!*@h'' ''#c'' ''b'' s
    in map call_delay (pending_calls s) = [600] \<and> map call_delay (pending_calls s') = [1]
       \<and> laters s = [(600, ''*!*@h'', ''#c'', ''b'')]
       \<and> laters s' = [(5, ''*!*@h'', ''#c'', ''b'')]
       \<and> later_timers s' (''*!*@h'', ''#c'', ''b'') = Some 1)"
  using admin_inv_init set_timer_latest_survives [OF admin_inv_init, of "\<lambda>hist r. Inr []"
      "[SetTimer 600 ''*!*@h'' ''#c'' ''b'', Tick 5]" 0 "''*!*@h''" "''#c''" "''b''"]
  by (simp add: run_admin_def set_timer_fields init_admin_def uncancel_def cancel_call_def)

section \<open>A mode change seen early cancels the timer\<close>

lemma drop_key_fields [simp]:
  "later_timers (drop_key k t s) = (later_timers s)(k := None)"
  "pending_calls (drop_key k t s) = cancel_call t (pending_calls s)"
  "laters (drop_key k t s) = filter (\<lambda>item. \<not> item_matches k item) (laters s)"
  "saved_laters (drop_key k t s) = filter (\<lambda>item. \<not> item_matches k item) (laters s)"
  "next_call (drop_key k t s) = next_call s"
  "requests (drop_key k t s) = requests s"
  by (simp_all add: drop_key_def)

lemma reversal_inj: "reversal k = reversal k' \<Longrightarrow> k = k'"
  by (cases k; cases k') (simp add: reversal_def)

text \<open>What one step does to the pending calls, the counter and the requests.\<close>

lemma admin_step_effect:
  assumes "admin_inv s"
  shows "\<exists>rs. requests (admin_step e op s) = requests s @ rs
     \<and> next_call s \<le> next_call (admin_step e op s)
     \<and> (\<forall>x \<in> set (pending_calls (admin_step e op s)).
           x \<in> set (pending_calls s) \<or> next_call s \<le> call_id x)
     \<and> (\<forall>r \<in> set rs. \<exists>x \<in> set (pending_calls s). r = reversal (call_key x))"
proof (cases op)
  case (SetTimer d h c m)
  have "\<forall>x \<in> set (pending_calls (set_timer d h c m s)).
           x \<in> set (pending_calls s) \<or> next_call s \<le> call_id x"
    using set_uncancel_subset by (fastforce simp: set_timer_fields)
  with SetTimer show ?thesis by (simp add: set_timer_fields)
next
  case (Fire t)
  show ?thesis
  proof (cases "t \<in> call_id ` set (pending_calls s)")
    case False
    with Fire show ?thesis by (simp add: fire_call_not_pending)
  next
    case True
    then obtain x where x: "x \<in> set (pending_calls s)" "t = call_id x" by auto
    from fire_call_state [OF assms x(1), of e] obtain ms where
      eq: "snd (fire_call e (call_id x) s) =
       (drop_key (call_key x) (call_id x) s)\<lparr>requests := requests s @ [reversal (call_key x)],
          sent_msgs := sent_msgs s @ ms\<rparr>"
      by blast
    show ?thesis
      unfolding Fire x(2) admin_step.simps eq using x(1)
      by (intro exI [of _ "[reversal (call_key x)]"]) auto
  qed
next
  case (ModeChange ev)
  then show ?thesis by (auto simp: on_mode_change_eq split: option.splits)
next
  case (Tick n)
  then show ?thesis by simp
qed

lemma stale_call_step:
  assumes "admin_inv s" and "t < next_call s" and "t \<notin> call_id ` set (pending_calls s)"
  shows "t < next_call (admin_step e op s) \<and> t \<notin> call_id ` set (pending_calls (admin_step e op s))"
proof -
  from admin_step_effect [OF assms(1), of e op] have
    n: "next_call s \<le> next_call (admin_step e op s)"
    and p: "\<forall>x \<in> set (pending_calls (admin_step e op s)).
           x \<in> set (pending_calls s) \<or> next_call s \<le> call_id x"
    by blast+
  from n assms(2) have "t < next_call (admin_step e op s)" by simp
  moreover have "t \<notin> call_id ` set (pending_calls (admin_step e op s))"
  proof
    assume "t \<in> call_id ` set (pending_calls (admin_step e op s))"
    then obtain x where x: "x \<in> set (pending_calls (admin_step e op s))" "call_id x = t" by auto
    with p have "x \<in> set (pending_calls s) \<or> next_call s \<le> call_id x" by blast
    with x assms(2,3) show False by auto
  qed
  ultimately show ?thesis ..
qed

lemma stale_call_run:
  assumes "admin_inv s" and "t < next_call s" and "t \<notin> call_id ` set (pending_calls s)"
  shows "t \<notin> call_id ` set (pending_calls (run_admin e ops s))"
proof -
  have "admin_inv (run_admin e ops s) \<and> t < next_call (run_admin e ops s)
      \<and> t \<notin> call_id ` set (pending_calls (run_admin e ops s))"
    using assms unfolding run_admin_def
  proof (induction ops arbitrary: s)
    case Nil
    then show ?case by simp
  next
    case (Cons op ops)
    from stale_call_step [OF Cons.prems, of e op] admin_inv_step [OF Cons.prems(1), of e op]
    show ?case by (simp add: Cons.IH)
  qed
  then show ?thesis by simp
qed

lemma later_timers_step_other:
  assumes "later_timers s k = None"
    and "case op of SetTimer d h c m \<Rightarrow> (h, c, m) \<noteq> k | _ \<Rightarrow> True"
  shows "later_timers (admin_step e op s) k = None"
proof (cases op)
  case (SetTimer d h c m)
  with assms show ?thesis by (simp add: set_timer_fields)
next
  case (Fire t)
  show ?thesis
  proof (cases "filter (\<lambda>c. call_id c = t) (pending_calls s)")
    case Nil
    with Fire assms show ?thesis by (simp add: fire_call_def)
  next
    case (Cons x xs)
    obtain h c m where k: "call_key x = (h, c, m)" by (cases "call_key x")
    show ?thesis
      using Fire Cons assms(1) k
      by (auto simp: fire_call_def do_later_def issue_request_def Let_def
          split: option.splits sum.splits exn.splits prod.splits)
  qed
next
  case (ModeChange ev)
  with assms show ?thesis by (simp add: on_mode_change_eq split: option.splits)
next
  case (Tick n)
  with assms show ?thesis by simp
qed

lemma no_reversal_run:
  assumes "admin_inv s" and "later_timers s k = None" and "no_set_timer k ops"
  shows "reversal k \<notin> set (new_requests s (run_admin e ops s))"
proof -
  have "\<exists>rs. requests (run_admin e ops s) = requests s @ rs \<and> reversal k \<notin> set rs"
    using assms unfolding run_admin_def
  proof (induction ops arbitrary: s)
    case Nil
    then show ?case by simp
  next
    case (Cons op ops)
    let ?s = "admin_step e op s"
    from Cons.prems(3) have op: "case op of SetTimer d h c m \<Rightarrow> (h, c, m) \<noteq> k | _ \<Rightarrow> True"
      and rest: "no_set_timer k ops"
      by (simp_all add: no_set_timer_def)
    have inv: "admin_inv ?s" using Cons.prems(1) by (rule admin_inv_step)
    have none: "later_timers ?s k = None"
      using Cons.prems(2) op by (rule later_timers_step_other)
    from Cons.IH [OF inv none rest] obtain rs' where
      rs': "requests (foldl (\<lambda>s op. admin_step e op s) ?s ops) = requests ?s @ rs'"
        "reversal k \<notin> set rs'"
      by blast
    from admin_step_effect [OF Cons.prems(1), of e op] obtain rs where
      rs: "requests ?s = requests s @ rs"
        "\<forall>r \<in> set rs. \<exists>x \<in> set (pending_calls s). r = reversal (call_key x)"
      by blast
    have "reversal k \<notin> set rs"
    proof
      assume "reversal k \<in> set rs"
      with rs(2) obtain x where x: "x \<in> set (pending_calls s)" "reversal k = reversal (call_key x)"
        by blast
      then have "call_key x = k" by (metis reversal_inj)
      with x(1) Cons.prems(1) have "later_timers s k = Some (call_id x)"
        by (auto simp: admin_inv_def)
      with Cons.prems(2) show False by simp
    qed
    with rs rs' show ?case by (intro exI [of _ "rs @ rs'"]) simp
  qed
  then show ?thesis by (auto simp: new_requests_def)
qed

text \<open>
  C5. In any state the registry reaches from a consistent one, a mode-change event with
  the set flag false whose argument, channel and mode are the key of a registered timer
  removes the key from the dictionary and from the persisted list (which is saved), and
  cancels the delayed call: no call for the key stays pending, the cancelled call is
  never pending again in any later run, and no later run that does not set a new timer
  for the key issues the \<^verbatim>\<open>-mode\<close> request of the key.
\<close>

theorem mode_change_cancels_timer:
  assumes "admin_inv s0"
    and "ev_set event = False"
    and "later_timers (run_admin e ops s0) (ev_arg event, ev_channel event, ev_mode event) = Some t"
  shows "let s = run_admin e ops s0; k = (ev_arg event, ev_channel event, ev_mode event);
             s' = on_event_irc_on_mode_change event s in
     later_timers s' k = None
     \<and> filter (item_matches k) (laters s') = []
     \<and> saved_laters s' = laters s'
     \<and> filter (\<lambda>x. call_key x = k) (pending_calls s') = []
     \<and> t \<in> call_id ` set (pending_calls s)
     \<and> (\<forall>e' ops'. t \<notin> call_id ` set (pending_calls (run_admin e' ops' s')))
     \<and> (\<forall>e' ops'. no_set_timer k ops' \<longrightarrow>
           reversal k \<notin> set (new_requests s' (run_admin e' ops' s')))"
proof -
  define s where "s = run_admin e ops s0"
  define k where "k = (ev_arg event, ev_channel event, ev_mode event)"
  define s' where "s' = on_event_irc_on_mode_change event s"
  have inv: "admin_inv s" unfolding s_def using assms(1) by (rule admin_inv_run)
  have reg: "later_timers s k = Some t" using assms(3) by (simp add: s_def k_def)
  have s': "s' = drop_key k t s"
    using assms(2) reg by (simp add: s'_def on_mode_change_eq k_def)
  have inv': "admin_inv s'" unfolding s' using inv reg by (rule admin_inv_drop_key)
  have a: "later_timers s' k = None" by (simp add: s')
  have b: "filter (item_matches k) (laters s') = []"
    by (simp add: s' filter_matches_removed)
  have c: "saved_laters s' = laters s'" by (simp add: s')
  have d: "filter (\<lambda>x. call_key x = k) (pending_calls s') = []"
    unfolding filter_empty_conv
  proof (intro ballI notI)
    fix x assume "x \<in> set (pending_calls s')" "call_key x = k"
    with inv' have "later_timers s' k = Some (call_id x)" by (auto simp: admin_inv_def)
    with a show False by simp
  qed
  from inv reg obtain x where x: "x \<in> set (pending_calls s)" "call_id x = t"
    unfolding admin_inv_def by blast
  then have f: "t \<in> call_id ` set (pending_calls s)" by auto
  from inv x have lt: "t < next_call s'" by (auto simp: admin_inv_def s')
  have gone: "t \<notin> call_id ` set (pending_calls s')" by (auto simp: s')
  have g: "\<forall>e' ops'. t \<notin> call_id ` set (pending_calls (run_admin e' ops' s'))"
    using stale_call_run [OF inv' lt gone] by blast
  have h: "\<forall>e' ops'. no_set_timer k ops' \<longrightarrow>
           reversal k \<notin> set (new_requests s' (run_admin e' ops' s'))"
    using no_reversal_run [OF inv' a] by blast
  show ?thesis
    unfolding Let_def s_def [symmetric] k_def [symmetric] s'_def [symmetric]
    using a b c d f g h by blast
qed


theorem mode_change_cancels_timer_witness:
  "admin_inv init_admin
   \<and> ev_set \<lparr>ev_set = False, ev_mode = ''q'', ev_arg = ''*!*@h'', ev_channel = ''#c''\<rparr> = False
   \<and> later_timers (run_admin (\<lambda>hist r. Inr []) [SetTimer 600 ''*!*@h'' ''#c'' ''q''] init_admin)
        (''*!*@h'', ''#c'', ''q'') = Some 0
   \<and> (let s' = on_event_irc_on_mode_change
                 \<lparr>ev_set = False, ev_mode = ''q'', ev_arg = ''*!*@h'', ev_channel = ''#c''\<rparr>
                 (run_admin (\<lambda>hist r. Inr []) [SetTimer 600 ''*!*@h'' ''#c'' ''q''] init_admin)
       in later_timers s' (''*!*@h'', ''#c'', ''q'') = None \<and> laters s' = []
          \<and> saved_laters s' = [] \<and> pending_calls s' = []
          \<and> requests (run_admin (\<lambda>hist r. Inr []) [Tick 600, Fire 0] s') = [])"
proof -
  let ?ev = "\<lparr>ev_set = False, ev_mode = ''q'', ev_arg = ''*!*@h'', ev_channel = ''#c''\<rparr>"
  let ?s = "run_admin (\<lambda>hist r. Inr []) [SetTimer 600 ''*!*@h'' ''#c'' ''q''] init_admin"
  have h2: "ev_set ?ev = False" by simp
  have h3: "later_timers ?s (ev_arg ?ev, ev_channel ?ev, ev_mode ?ev) = Some 0"
    by (simp add: run_admin_def set_timer_fields init_admin_def)
  from mode_change_cancels_timer [OF admin_inv_init h2 h3] admin_inv_init h3
  show ?thesis
    by (simp add: run_admin_def set_timer_fields init_admin_def on_mode_change_eq
        uncancel_def cancel_call_def fire_call_def)
qed

section \<open>Moderation commands: order of requests, failures, delays\<close>

lemma new_requests_append [simp]:
  "requests s' = requests s @ rs \<Longrightarrow> new_requests s s' = rs"
  by (simp add: new_requests_def)

lemma new_requests_self [simp]: "new_requests s s = []"
  by (simp add: new_requests_def)

lemma nick_to_hostmask_requests:
  "nick_to_hostmask e nick s = (r, s1) \<Longrightarrow>
     (requests s1 = requests s \<or> requests s1 = requests s @ [Whois nick])
     \<and> s1 = s\<lparr>requests := requests s1\<rparr>"
  by (auto simp: nick_to_hostmask_def issue_request_def split: if_splits sum.splits)

lemma do_moderequest_requests:
  "\<exists>rs. requests (snd (do_moderequest e mode nick dur channel s)) = requests s @ rs"
proof -
  obtain r s1 where n: "nick_to_hostmask e nick s = (r, s1)" by (cases "nick_to_hostmask e nick s")
  from nick_to_hostmask_requests [OF n] obtain rs where rs: "requests s1 = requests s @ rs"
    by auto
  show ?thesis
    using n rs
    by (auto simp: do_moderequest_def issue_request_def reply_def set_timer_fields
        split: sum.splits exn.splits)
qed

lemma ban_kick_first:
  assumes "kickable (bm_nick m)"
  shows "\<exists>rest. new_requests s (snd (ban e event m s))
     = Kick (ce_channel event) (split_first CHR ''!'' (bm_nick m))
         (Some (kick_reason event (bm_reason m))) # rest"
proof -
  let ?n = "split_first CHR ''!'' (bm_nick m)"
  let ?k = "Kick (ce_channel event) ?n (Some (kick_reason event (bm_reason m)))"
  let ?s1 = "s\<lparr>requests := requests s @ [?k]\<rparr>"
  have bare: "?n = bm_nick m" if "CHR ''!'' \<notin> set (bm_nick m)"
    using that by (auto simp: split_first_def takeWhile_eq_all_conv)
  show ?thesis
  proof (cases "e (requests s) ?k")
    case (Inl x)
    with assms bare show ?thesis
      by (auto simp: ban_def kickable_def issue_request_def Let_def)
  next
    case (Inr v)
    from do_moderequest_requests [of e "''b''" ?n "bm_duration m" "ce_channel event" ?s1]
    obtain rs where "requests (snd (do_moderequest e ''b'' ?n (bm_duration m) (ce_channel event) ?s1))
        = requests s @ ?k # rs"
      by auto
    with Inr assms bare show ?thesis
      by (auto simp: ban_def kickable_def issue_request_def Let_def)
  qed
qed

lemma fire_new_timer:
  assumes "admin_inv s"
  shows "new_requests (set_timer d h c m s) (snd (fire_call e (next_call s) (set_timer d h c m s)))
     = [Mode c (''-'' @ m) h]"
proof -
  let ?x = "\<lparr>call_id = next_call s, call_delay = max 1 d, call_key = (h, c, m)\<rparr>"
  let ?s = "set_timer d h c m s"
  have inv: "admin_inv ?s" using assms by (rule admin_inv_set_timer)
  have x: "?x \<in> set (pending_calls ?s)" by (simp add: set_timer_fields)
  from fire_call_state [OF inv x, of e] obtain ms where
    "snd (fire_call e (call_id ?x) ?s) =
       (drop_key (call_key ?x) (call_id ?x) ?s)\<lparr>requests := requests ?s @ [reversal (call_key ?x)],
          sent_msgs := sent_msgs ?s @ ms\<rparr>"
    by blast
  then show ?thesis by (simp add: reversal_def)
qed

text \<open>
  C3. For a kickable target the first request the ban command issues is the kick, so it
  comes before the \<^verbatim>\<open>+b\<close> request. For the bare nick \<^verbatim>\<open>evil\<close> and the duration
  \<^verbatim>\<open>10m\<close>, when the kick, the whois and the mode request succeed, the requests issued
  are the kick, the whois that resolves the host, and \<^verbatim>\<open>+b\<close> for \<^verbatim>\<open>*!*@host\<close>: of the
  operator requests, the kick then \<^verbatim>\<open>+b\<close>. One delayed call is then pending for the
  mask, armed with 600 seconds, and when it is called it issues \<^verbatim>\<open>-b\<close> for the same
  mask.
\<close>

theorem ban_kick_before_mode:
  "(kickable (bm_nick m) \<longrightarrow>
      (\<exists>rest. new_requests s (snd (ban e event m s))
         = Kick (ce_channel event) (split_first CHR ''!'' (bm_nick m))
             (Some (kick_reason event (bm_reason m))) # rest))
   \<and> (admin_inv s \<and> bm_nick m = ''evil'' \<and> bm_duration m = StrDuration ''10m''
        \<and> e (requests s) (Kick (ce_channel event) ''evil'' (Some (kick_reason event (bm_reason m))))
            = Inr v
        \<and> e (requests s @ [Kick (ce_channel event) ''evil'' (Some (kick_reason event (bm_reason m)))])
            (Whois ''evil'') = Inr host
        \<and> e (requests s @ [Kick (ce_channel event) ''evil'' (Some (kick_reason event (bm_reason m))),
                            Whois ''evil''])
            (Mode (ce_channel event) ''+b'' (''*!*@'' @ host)) = Inr v'
      \<longrightarrow> (let s' = snd (ban e event m s); ch = ce_channel event; msk = ''*!*@'' @ host in
            fst (ban e event m s) = Inr ()
            \<and> new_requests s s' = [Kick ch ''evil'' (Some (kick_reason event (bm_reason m))),
                                    Whois ''evil'', Mode ch ''+b'' msk]
            \<and> filter is_op_request (new_requests s s')
                 = [Kick ch ''evil'' (Some (kick_reason event (bm_reason m))), Mode ch ''+b'' msk]
            \<and> filter (\<lambda>x. call_key x = (msk, ch, ''b'')) (pending_calls s')
                 = [\<lparr>call_id = next_call s, call_delay = 600, call_key = (msk, ch, ''b'')\<rparr>]
            \<and> new_requests s' (snd (fire_call e' (next_call s) s')) = [Mode ch ''-b'' msk]))"
proof (intro conjI impI)
  assume "kickable (bm_nick m)"
  then show "\<exists>rest. new_requests s (snd (ban e event m s))
         = Kick (ce_channel event) (split_first CHR ''!'' (bm_nick m))
             (Some (kick_reason event (bm_reason m))) # rest"
    by (rule ban_kick_first)
next
  let ?ch = "ce_channel event"
  let ?k = "Kick ?ch ''evil'' (Some (kick_reason event (bm_reason m)))"
  let ?msk = "''*!*@'' @ host"
  let ?s2 = "s\<lparr>requests := requests s @ [?k, Whois ''evil'', Mode ?ch ''+b'' ?msk]\<rparr>"
  assume a: "admin_inv s \<and> bm_nick m = ''evil'' \<and> bm_duration m = StrDuration ''10m''
        \<and> e (requests s) ?k = Inr v
        \<and> e (requests s @ [?k]) (Whois ''evil'') = Inr host
        \<and> e (requests s @ [?k, Whois ''evil'']) (Mode ?ch ''+b'' ?msk) = Inr v'"
  have pt: "parse_time ''10m'' = 600"
    by (simp add: parse_time_def is_digit_def is_unit_def int_of_digits_def digit_val_def
        multipliers_def)
  have b: "ban e event m s = (Inr (), set_timer 600 ?msk ?ch ''b'' ?s2)"
    using a by (simp add: ban_def do_moderequest_def nick_to_hostmask_def issue_request_def
        split_first_def truthy_def seconds_def pt Let_def)
  have inv2: "admin_inv ?s2" using a by simp
  have r: "requests (set_timer 600 ?msk ?ch ''b'' ?s2)
      = requests s @ [?k, Whois ''evil'', Mode ?ch ''+b'' ?msk]"
    by (simp add: set_timer_fields)
  have p: "filter (\<lambda>x. call_key x = (?msk, ?ch, ''b'')) (pending_calls (set_timer 600 ?msk ?ch ''b'' ?s2))
      = [\<lparr>call_id = next_call s, call_delay = 600, call_key = (?msk, ?ch, ''b'')\<rparr>]"
    using set_timer_pending_for_key [OF inv2, of ?msk ?ch "''b''" 600] by simp
  have f: "new_requests (set_timer 600 ?msk ?ch ''b'' ?s2)
       (snd (fire_call e' (next_call s) (set_timer 600 ?msk ?ch ''b'' ?s2))) = [Mode ?ch ''-b'' ?msk]"
    using fire_new_timer [OF inv2, of 600 ?msk ?ch "''b''" e'] by simp
  show "let s' = snd (ban e event m s); ch = ce_channel event; msk = ''*!*@'' @ host in
            fst (ban e event m s) = Inr ()
            \<and> new_requests s s' = [Kick ch ''evil'' (Some (kick_reason event (bm_reason m))),
                                    Whois ''evil'', Mode ch ''+b'' msk]
            \<and> filter is_op_request (new_requests s s')
                 = [Kick ch ''evil'' (Some (kick_reason event (bm_reason m))), Mode ch ''+b'' msk]
            \<and> filter (\<lambda>x. call_key x = (msk, ch, ''b'')) (pending_calls s')
                 = [\<lparr>call_id = next_call s, call_delay = 600, call_key = (msk, ch, ''b'')\<rparr>]
            \<and> new_requests s' (snd (fire_call e' (next_call s) s')) = [Mode ch ''-b'' msk]"
    unfolding Let_def b fst_conv snd_conv new_requests_append [OF r]
    using p f by (simp add: is_op_request_def)
qed

theorem ban_kick_before_mode_witness:
  "kickable ''evil'' \<and> admin_inv init_admin
   \<and> (let event = \<lparr>ce_user = ''op!u@h'', ce_channel = ''#c''\<rparr>;
           m = \<lparr>bm_nick = ''evil'', bm_duration = StrDuration ''10m'', bm_reason = None\<rparr>;
           s' = snd (ban (helpful_env ''bad.host'') event m init_admin) in
       requests s' = [Kick ''#c'' ''evil'' (Some ''Requested by op''), Whois ''evil'',
                      Mode ''#c'' ''+b'' ''*!*@bad.host'']
       \<and> map call_delay (pending_calls s') = [600]
       \<and> requests (snd (fire_call (helpful_env ''bad.host'') 0 s'))
           = requests s' @ [Mode ''#c'' ''-b'' ''*!*@bad.host''])"
proof -
  let ?event = "\<lparr>ce_user = ''op!u@h'', ce_channel = ''#c''\<rparr>"
  let ?m = "\<lparr>bm_nick = ''evil'', bm_duration = StrDuration ''10m'', bm_reason = None\<rparr>"
  have k: "kickable ''evil''" by (simp add: kickable_def)
  have kr: "kick_reason ?event None = ''Requested by op''"
    by (simp add: kick_reason_def split_first_def)
  have pt: "parse_time ''10m'' = 600"
    by (simp add: parse_time_def is_digit_def is_unit_def int_of_digits_def digit_val_def
        multipliers_def)
  have b: "ban (helpful_env ''bad.host'') ?event ?m init_admin
      = (Inr (), set_timer 600 ''*!*@bad.host'' ''#c'' ''b''
          (init_admin\<lparr>requests := [Kick ''#c'' ''evil'' (Some ''Requested by op''), Whois ''evil'',
                      Mode ''#c'' ''+b'' ''*!*@bad.host'']\<rparr>))"
    by (simp add: ban_def do_moderequest_def nick_to_hostmask_def issue_request_def
        split_first_def truthy_def seconds_def pt kr helpful_env_def init_admin_def Let_def)
  from ban_kick_before_mode [of ?m init_admin "helpful_env ''bad.host''" ?event "[]" "''bad.host''" "[]"
      "helpful_env ''bad.host''"] k admin_inv_init
  show ?thesis
    unfolding Let_def b snd_conv
    by (simp add: set_timer_fields init_admin_def uncancel_def fire_call_def do_later_def
        issue_request_def helpful_env_def)
qed

lemma kick_opfailed_replied:
  assumes "e (requests s) (Kick (ce_channel event) nick reason) = Inl (OpFailed msg)"
  shows "kick e event nick reason s
     = (Inr (), s\<lparr>requests := requests s @ [Kick (ce_channel event) nick reason],
                   replies := replies s @ [msg]\<rparr>)"
  using assms by (simp add: kick_def issue_request_def reply_def)

lemma moderequest_opfailed_no_timer:
  assumes "nick_to_hostmask e nick s = (Inr msk, s1)"
    and "e (requests s1) (Mode channel (''+'' @ mode) msk) = Inl (OpFailed msg)"
  shows "do_moderequest e mode nick dur channel s
     = (Inr (), s1\<lparr>requests := requests s1 @ [Mode channel (''+'' @ mode) msk],
                    replies := replies s1 @ [msg]\<rparr>)"
  using assms by (simp add: do_moderequest_def issue_request_def reply_def)

text \<open>
  C6. The claim is that every \<^verbatim>\<open>OpFailed\<close> of a moderation request is caught and turned
  into a reply. The kick of the ban command is issued outside any \<^verbatim>\<open>try\<close>: when it
  fails, the exception leaves the handler, nothing is replied and no ban is requested.
  The kick command, on the same failure, replies.
\<close>

theorem ban_kick_opfailed_propagates:
  "ban (refusing_env ''I am not an operator'') \<lparr>ce_user = ''op!u@h'', ce_channel = ''#c''\<rparr>
       \<lparr>bm_nick = ''evil'', bm_duration = StrDuration ''10m'', bm_reason = None\<rparr> init_admin
     = (Inl (OpFailed ''I am not an operator''),
        init_admin\<lparr>requests := [Kick ''#c'' ''evil'' (Some ''Requested by op'')]\<rparr>)
   \<and> replies (snd (ban (refusing_env ''I am not an operator'')
         \<lparr>ce_user = ''op!u@h'', ce_channel = ''#c''\<rparr>
         \<lparr>bm_nick = ''evil'', bm_duration = StrDuration ''10m'', bm_reason = None\<rparr> init_admin)) = []
   \<and> kick (refusing_env ''I am not an operator'') \<lparr>ce_user = ''op!u@h'', ce_channel = ''#c''\<rparr>
        ''evil'' None init_admin
     = (Inr (), init_admin\<lparr>requests := [Kick ''#c'' ''evil'' None],
                           replies := [''I am not an operator'']\<rparr>)"
  by (simp add: ban_def kick_def issue_request_def reply_def refusing_env_def init_admin_def
      kick_reason_def split_first_def Let_def)

lemma do_modederequest_delayed:
  assumes "nick_to_hostmask e nick s = (Inr msk, s1)" and "truthy dur"
  shows "do_modederequest e mode nick dur channel s
     = (Inr (), reply ''It shall be done'' (set_timer (seconds dur) msk channel mode s1))"
  using assms by (simp add: do_modederequest_def)

lemma do_modederequest_at_once:
  assumes "nick_to_hostmask e nick s = (Inr msk, s1)" and "\<not> truthy dur"
  shows "do_modederequest e mode nick dur channel s
     = (Inr (), s1\<lparr>requests := requests s1 @ [Mode channel (''-'' @ mode) msk]\<rparr>)"
  using assms by (simp add: do_modederequest_def issue_request_def)

lemma do_modederequest_no_mode_when_delayed:
  assumes "truthy dur"
  shows "filter is_mode_request (new_requests s (snd (do_modederequest e mode nick dur channel s))) = []"
proof -
  obtain r s1 where n: "nick_to_hostmask e nick s = (r, s1)" by (cases "nick_to_hostmask e nick s")
  from nick_to_hostmask_requests [OF n]
  have rq: "requests s1 = requests s \<or> requests s1 = requests s @ [Whois nick]" by blast
  have "requests (snd (do_modederequest e mode nick dur channel s)) = requests s1"
    using n assms
    by (auto simp: do_modederequest_def reply_def set_timer_fields split: sum.splits exn.splits)
  with rq show ?thesis
    by (auto simp: new_requests_def is_mode_request_def)
qed

lemma reply_fields [simp]:
  "later_timers (reply msg s) = later_timers s"
  "pending_calls (reply msg s) = pending_calls s"
  "laters (reply msg s) = laters s"
  "saved_laters (reply msg s) = saved_laters s"
  "next_call (reply msg s) = next_call s"
  "clock (reply msg s) = clock s"
  "requests (reply msg s) = requests s"
  "replies (reply msg s) = replies s @ [msg]"
  by (simp_all add: reply_def)

lemma fire_call_reply:
  "snd (fire_call e t (reply msg s)) = reply msg (snd (fire_call e t s))"
  by (auto simp: fire_call_def do_later_def reply_def issue_request_def Let_def
      split: list.splits option.splits sum.splits exn.splits prod.splits)

text \<open>
  C10. For \<^verbatim>\<open>unquiet\<close> and \<^verbatim>\<open>unban\<close>: with a delay, the handler issues no mode
  request, whatever the resolution of the target gives; when the target resolves to a
  mask it replies \<^verbatim>\<open>It shall be done\<close> and leaves one delayed call for the mask,
  armed with \<open>max 1 (parse_time d)\<close> and persisted for \<open>clock + parse_time d\<close>, whose
  call issues the \<^verbatim>\<open>-mode\<close> request. With no delay and a resolved target the
  \<^verbatim>\<open>-mode\<close> request is issued at once and nothing is scheduled.
\<close>

theorem unmode_delayed_only_schedules:
  assumes "handler = unquiet \<and> mode = ''q'' \<or> handler = unban \<and> mode = ''b''"
  shows "(truthy (mm_duration m) \<longrightarrow>
            filter is_mode_request (new_requests s (handler e event m s)) = [])
   \<and> (admin_inv s \<and> nick_to_hostmask e (mm_nick m) s = (Inr msk, s1)
        \<and> mm_duration m = StrDuration d \<and> d \<noteq> [] \<longrightarrow>
        (let s' = handler e event m s; k = (msk, ce_channel event, mode) in
           replies s' = replies s @ [''It shall be done'']
           \<and> filter (\<lambda>x. call_key x = k) (pending_calls s')
                = [\<lparr>call_id = next_call s, call_delay = max 1 (parse_time d), call_key = k\<rparr>]
           \<and> filter (item_matches k) (laters s')
                = [(clock s + parse_time d, msk, ce_channel event, mode)]
           \<and> new_requests s' (snd (fire_call e' (next_call s) s'))
                = [Mode (ce_channel event) (''-'' @ mode) msk]))
   \<and> (nick_to_hostmask e (mm_nick m) s = (Inr msk, s1) \<and> \<not> truthy (mm_duration m) \<longrightarrow>
        (let s' = handler e event m s in
           filter is_mode_request (new_requests s s') = [Mode (ce_channel event) (''-'' @ mode) msk]
           \<and> pending_calls s' = pending_calls s \<and> laters s' = laters s
           \<and> replies s' = replies s))"
proof -
  have h: "handler e event m s
      = snd (do_modederequest e mode (mm_nick m) (mm_duration m) (ce_channel event) s)"
    using assms by (auto simp: unquiet_def unban_def)
  have c1: "truthy (mm_duration m) \<longrightarrow>
            filter is_mode_request (new_requests s (handler e event m s)) = []"
    unfolding h by (simp add: do_modederequest_no_mode_when_delayed)
  have c2: "let s' = handler e event m s; k = (msk, ce_channel event, mode) in
           replies s' = replies s @ [''It shall be done'']
           \<and> filter (\<lambda>x. call_key x = k) (pending_calls s')
                = [\<lparr>call_id = next_call s, call_delay = max 1 (parse_time d), call_key = k\<rparr>]
           \<and> filter (item_matches k) (laters s')
                = [(clock s + parse_time d, msk, ce_channel event, mode)]
           \<and> new_requests s' (snd (fire_call e' (next_call s) s'))
                = [Mode (ce_channel event) (''-'' @ mode) msk]"
    if a: "admin_inv s \<and> nick_to_hostmask e (mm_nick m) s = (Inr msk, s1)
        \<and> mm_duration m = StrDuration d \<and> d \<noteq> []"
  proof -
    from a have n: "nick_to_hostmask e (mm_nick m) s = (Inr msk, s1)" by simp
    from nick_to_hostmask_requests [OF n] have s1: "s1 = s\<lparr>requests := requests s1\<rparr>" by blast
    have inv1: "admin_inv s1" using a by (subst s1) simp
    have f1: "next_call s1 = next_call s" "clock s1 = clock s" "replies s1 = replies s"
      by (subst s1, simp)+
    have tr: "truthy (mm_duration m)" "seconds (mm_duration m) = parse_time d"
      using a by (simp_all add: truthy_def seconds_def)
    let ?st = "set_timer (parse_time d) msk (ce_channel event) mode s1"
    have eq: "handler e event m s = reply ''It shall be done'' ?st"
      unfolding h using do_modederequest_delayed [OF n tr(1)] tr(2) by simp
    have p: "filter (\<lambda>x. call_key x = (msk, ce_channel event, mode)) (pending_calls ?st)
        = [\<lparr>call_id = next_call s, call_delay = max 1 (parse_time d),
             call_key = (msk, ce_channel event, mode)\<rparr>]"
      using set_timer_pending_for_key [OF inv1] f1 by simp
    have l: "filter (item_matches (msk, ce_channel event, mode)) (laters ?st)
        = [(clock s + parse_time d, msk, ce_channel event, mode)]"
      using f1 by (simp add: set_timer_fields filter_matches_removed)
    have f: "new_requests ?st (snd (fire_call e' (next_call s) ?st))
        = [Mode (ce_channel event) (''-'' @ mode) msk]"
      using fire_new_timer [OF inv1, of "parse_time d" msk "ce_channel event" mode e'] f1 by simp
    have f': "new_requests (reply ''It shall be done'' ?st)
          (snd (fire_call e' (next_call s) (reply ''It shall be done'' ?st)))
        = [Mode (ce_channel event) (''-'' @ mode) msk]"
      using f by (simp add: fire_call_reply new_requests_def)
    show ?thesis
      unfolding Let_def eq using p l f' f1 by (simp add: set_timer_fields)
  qed
  have c3: "let s' = handler e event m s in
           filter is_mode_request (new_requests s s') = [Mode (ce_channel event) (''-'' @ mode) msk]
           \<and> pending_calls s' = pending_calls s \<and> laters s' = laters s
           \<and> replies s' = replies s"
    if a: "nick_to_hostmask e (mm_nick m) s = (Inr msk, s1) \<and> \<not> truthy (mm_duration m)"
  proof -
    from a have n: "nick_to_hostmask e (mm_nick m) s = (Inr msk, s1)" by simp
    from nick_to_hostmask_requests [OF n]
    have rq: "requests s1 = requests s \<or> requests s1 = requests s @ [Whois (mm_nick m)]"
      and s1: "s1 = s\<lparr>requests := requests s1\<rparr>" by blast+
    have f1: "pending_calls s1 = pending_calls s" "laters s1 = laters s" "replies s1 = replies s"
      by (subst s1, simp)+
    have eq: "handler e event m s
        = s1\<lparr>requests := requests s1 @ [Mode (ce_channel event) (''-'' @ mode) msk]\<rparr>"
      unfolding h using do_modederequest_at_once [OF n] a by simp
    show ?thesis
      unfolding Let_def eq using rq f1
      by (auto simp: new_requests_def is_mode_request_def)
  qed
  from c1 c2 c3 show ?thesis by blast
qed

theorem unmode_delayed_only_schedules_witness:
  "admin_inv init_admin
   \<and> nick_to_hostmask (helpful_env ''h'') ''bob!*@*'' init_admin = (Inr ''bob!*@*'', init_admin)
   \<and> truthy (StrDuration ''1h30m'') \<and> \<not> truthy NoDuration
   \<and> (let s' = unquiet (helpful_env ''h'') \<lparr>ce_user = ''op!u@h'', ce_channel = ''#c''\<rparr>
                 \<lparr>mm_nick = ''bob!*@*'', mm_duration = StrDuration ''1h30m''\<rparr> init_admin in
         requests s' = [] \<and> replies s' = [''It shall be done'']
         \<and> map call_delay (pending_calls s') = [5400]
         \<and> laters s' = [(5400, ''bob!*@*'', ''#c'', ''q'')]
         \<and> requests (snd (fire_call (helpful_env ''h'') 0 s')) = [Mode ''#c'' ''-q'' ''bob!*@*''])
   \<and> (let s' = unban (helpful_env ''h'') \<lparr>ce_user = ''op!u@h'', ce_channel = ''#c''\<rparr>
                 \<lparr>mm_nick = ''bob!*@*'', mm_duration = NoDuration\<rparr> init_admin in
         requests s' = [Mode ''#c'' ''-b'' ''bob!*@*''] \<and> pending_calls s' = []
         \<and> replies s' = [])"
proof -
  let ?e = "helpful_env ''h''"
  let ?ev = "\<lparr>ce_user = ''op!u@h'', ce_channel = ''#c''\<rparr>"
  have n: "nick_to_hostmask ?e ''bob!*@*'' init_admin = (Inr ''bob!*@*'', init_admin)"
    by (simp add: nick_to_hostmask_def)
  have pt: "parse_time ''1h30m'' = 5400"
    by (simp add: parse_time_def is_digit_def is_unit_def int_of_digits_def digit_val_def
        multipliers_def)
  have tr: "truthy (StrDuration ''1h30m'')" "\<not> truthy NoDuration"
    by (simp_all add: truthy_def)
  have q: "unquiet ?e ?ev \<lparr>mm_nick = ''bob!*@*'', mm_duration = StrDuration ''1h30m''\<rparr> init_admin
      = reply ''It shall be done'' (set_timer 5400 ''bob!*@*'' ''#c'' ''q'' init_admin)"
    by (simp add: unquiet_def do_modederequest_delayed [OF n tr(1)] seconds_def pt)
  have b: "unban ?e ?ev \<lparr>mm_nick = ''bob!*@*'', mm_duration = NoDuration\<rparr> init_admin
      = init_admin\<lparr>requests := requests init_admin @ [Mode ''#c'' ''-b'' ''bob!*@*'']\<rparr>"
    using do_modederequest_at_once [OF n tr(2), of "''b''" "''#c''"] by (simp add: unban_def)
  have h1: "unquiet = unquiet \<and> ''q'' = ''q'' \<or> unquiet = unban \<and> ''q'' = ''b''" by simp
  have h2: "unban = unquiet \<and> ''b'' = ''q'' \<or> unban = unban \<and> ''b'' = ''b''" by simp
  from unmode_delayed_only_schedules [OF h1, of
      "\<lparr>mm_nick = ''bob!*@*'', mm_duration = StrDuration ''1h30m''\<rparr>" init_admin ?e ?ev
      "''bob!*@*''" init_admin "''1h30m''" ?e]
    unmode_delayed_only_schedules [OF h2, of
      "\<lparr>mm_nick = ''bob!*@*'', mm_duration = NoDuration\<rparr>" init_admin ?e ?ev
      "''bob!*@*''" init_admin "''1h30m''" ?e]
    admin_inv_init n tr
  show ?thesis
    unfolding Let_def q b
    by (simp add: set_timer_fields init_admin_def uncancel_def fire_call_def do_later_def
        issue_request_def helpful_env_def reply_def)
qed

section \<open>Topic undo\<close>

lemma issue_topic_fields [simp]:
  "topic_stack (issue_topic c t s) = topic_stack s"
  "topic_waiters (issue_topic c t s) = topic_waiters s"
  "topic_timeouts (issue_topic c t s) = topic_timeouts s"
  "next_timeout (issue_topic c t s) = next_timeout s"
  "next_deferred (issue_topic c t s) = next_deferred s"
  "topic_queries (issue_topic c t s) = topic_queries s"
  "topic_requests (issue_topic c t s) = topic_requests s @ [(c, t)]"
  "topic_replies (issue_topic c t s) = topic_replies s"
  "fired (issue_topic c t s) = fired s"
  "topic_errors (issue_topic c t s) = topic_errors s"
  by (simp_all add: issue_topic_def)

lemma topic_reply_fields [simp]:
  "topic_stack (topic_reply m s) = topic_stack s"
  "topic_waiters (topic_reply m s) = topic_waiters s"
  "topic_timeouts (topic_reply m s) = topic_timeouts s"
  "next_timeout (topic_reply m s) = next_timeout s"
  "next_deferred (topic_reply m s) = next_deferred s"
  "topic_queries (topic_reply m s) = topic_queries s"
  "topic_requests (topic_reply m s) = topic_requests s"
  "topic_replies (topic_reply m s) = topic_replies s @ [m]"
  "fired (topic_reply m s) = fired s"
  "topic_errors (topic_reply m s) = topic_errors s"
  by (simp_all add: topic_reply_def)

text \<open>
  C8. With fewer than two topics in the channel's history, undo replies that it does not
  know the former topic, issues no topic request and leaves the history as it is. With
  exactly two, both are taken off (the history has length 0 afterwards) and the older
  one is issued as the topic request. In general, with at least two, the two newest are
  taken off and the second newest is issued.
\<close>

theorem topic_undo_needs_two:
  "(length (topic_stack s channel) < 2 \<longrightarrow>
      topic_requests (topic_undo channel s) = topic_requests s
      \<and> topic_replies (topic_undo channel s) = topic_replies s
           @ [''I don'' @ [CHR 0x27] @ ''t know what the topic used to be. Cannot undo =('']
      \<and> topic_stack (topic_undo channel s) = topic_stack s)
   \<and> (topic_stack s channel = [older, newer] \<longrightarrow>
      length (topic_stack (topic_undo channel s) channel) = 0
      \<and> topic_requests (topic_undo channel s) = topic_requests s @ [(channel, older)]
      \<and> topic_replies (topic_undo channel s) = topic_replies s)
   \<and> (2 \<le> length (topic_stack s channel) \<longrightarrow>
      topic_stack (topic_undo channel s) channel = butlast (butlast (topic_stack s channel))
      \<and> topic_requests (topic_undo channel s)
           = topic_requests s @ [(channel, last (butlast (topic_stack s channel)))])"
  by (simp add: topic_undo_def Let_def)

theorem topic_undo_needs_two_witness:
  "length (topic_stack (run_topic [TopicUpdated ''#c'' ''old''] init_topic) ''#c'') < 2
   \<and> topic_requests (topic_undo ''#c'' (run_topic [TopicUpdated ''#c'' ''old''] init_topic)) = []
   \<and> topic_stack (run_topic [TopicUpdated ''#c'' ''old'', TopicUpdated ''#c'' ''new''] init_topic) ''#c''
        = [''old'', ''new'']
   \<and> topic_stack (topic_undo ''#c''
        (run_topic [TopicUpdated ''#c'' ''old'', TopicUpdated ''#c'' ''new''] init_topic)) ''#c'' = []
   \<and> topic_requests (topic_undo ''#c''
        (run_topic [TopicUpdated ''#c'' ''old'', TopicUpdated ''#c'' ''new''] init_topic))
        = [(''#c'', ''old'')]"
proof -
  let ?s1 = "run_topic [TopicUpdated ''#c'' ''old''] init_topic"
  let ?s2 = "run_topic [TopicUpdated ''#c'' ''old'', TopicUpdated ''#c'' ''new''] init_topic"
  have a: "topic_stack ?s1 ''#c'' = [''old'']" "topic_requests ?s1 = []"
    by (simp_all add: run_topic_def on_event_irc_on_topic_updated_def init_topic_def
        deque_append_def Let_def)
  have b: "topic_stack ?s2 ''#c'' = [''old'', ''new'']" "topic_requests ?s2 = []"
    by (simp_all add: run_topic_def on_event_irc_on_topic_updated_def init_topic_def
        deque_append_def Let_def)
  from topic_undo_needs_two [of ?s1 "''#c''" "''old''" "''new''"]
    topic_undo_needs_two [of ?s2 "''#c''" "''old''" "''new''"] a b
  show ?thesis by simp
qed

section \<open>Positional topic edits out of range\<close>





text \<open>
  A position that does not fit the index type: \<^verbatim>\<open>insert\<close> raises \<^verbatim>\<open>OverflowError\<close>
  in the callback, which no handler catches; nothing is requested or replied.
\<close>

lemma insert_position_overflow:
  "pos < - ssize_max - 1 \<or> ssize_max < pos \<Longrightarrow>
     insert_callback channel pos text currenttopic s
       = s\<lparr>topic_errors := topic_errors s @ [OverflowError]\<rparr>"
  by (simp add: insert_callback_def py_insert_def)




section \<open>What changes the topic history\<close>

lemma edit_callback_stack [simp]:
  "topic_stack (edit_callback channel ed currenttopic s) = topic_stack s"
  by (cases ed)
    (simp_all add: edit_callback_def append_callback_def insert_callback_def
      replace_callback_def remove_callback_def pop_callback_def Let_def
      split: option.splits sum.splits)

lemma get_current_topic_stack [simp]:
  "topic_stack (snd (get_current_topic channel s)) = topic_stack s"
  by (simp add: get_current_topic_def Let_def)

lemma add_callbacks_stack [simp]:
  "topic_stack (add_callbacks channel ed d s) = topic_stack s"
  by (cases d) (simp_all add: add_callbacks_def)

lemma topic_command_stack [simp]:
  "topic_stack (topic_command channel ed s) = topic_stack s"
proof -
  obtain d s1 where g: "get_current_topic channel s = (d, s1)"
    by (cases "get_current_topic channel s")
  then have "topic_stack s1 = topic_stack s"
    using get_current_topic_stack [of channel s] by simp
  with g show ?thesis by (simp add: topic_command_def)
qed

lemma fire_callback_stack [simp]:
  "topic_stack (fire_callback channel newtopic d s) = topic_stack s"
  by (simp add: fire_callback_def Let_def split: option.splits)

lemma foldl_fire_callback_stack [simp]:
  "topic_stack (foldl (\<lambda>s d. fire_callback channel newtopic d s) s ds) = topic_stack s"
  by (induction ds arbitrary: s) simp_all

lemma failure_stack [simp]: "topic_stack (failure c s) = topic_stack s"
  by (simp add: failure_def Let_def split: list.splits prod.splits)

text \<open>
  C7, as the code has it. Append, insert, replace, remove and pop leave every channel's
  history as it is, and so does the timeout of a topic fetch. The history changes in
  two places: a topic-updated notification appends the new topic unless it equals the
  newest one, and undo, with at least two topics known, takes the two newest off at
  once, before any notification.
\<close>

theorem history_changed_by_updates_and_undo:
  "topic_stack (topicappend channel text s) = topic_stack s
   \<and> topic_stack (topicinsert channel pos text s) = topic_stack s
   \<and> topic_stack (topicreplace channel pos text s) = topic_stack s
   \<and> topic_stack (topicremove channel pos s) = topic_stack s
   \<and> topic_stack (topicpop channel s) = topic_stack s
   \<and> topic_stack (failure c s) = topic_stack s
   \<and> topic_stack (topic_undo channel s)
        = (if length (topic_stack s channel) < 2 then topic_stack s
           else (topic_stack s)(channel := butlast (butlast (topic_stack s channel))))
   \<and> topic_stack (on_event_irc_on_topic_updated channel newtopic s)
        = (if topic_stack s channel \<noteq> [] \<and> last (topic_stack s channel) = newtopic
           then topic_stack s
           else (topic_stack s)(channel := deque_append (topic_stack s channel) newtopic))"
  by (simp add: topicappend_def topicinsert_def topicreplace_def topicremove_def topicpop_def
      topic_undo_def on_event_irc_on_topic_updated_def Let_def)

text \<open>
  The claim as stated fails for undo: on a history of two topics it empties the
  stored history itself.
\<close>

theorem undo_changes_history_counterexample:
  "topic_stack (run_topic [TopicUpdated ''#c'' ''old'', TopicUpdated ''#c'' ''new''] init_topic) ''#c''
     = [''old'', ''new'']
   \<and> topic_stack (topic_undo ''#c''
        (run_topic [TopicUpdated ''#c'' ''old'', TopicUpdated ''#c'' ''new''] init_topic)) ''#c'' = []"
  by (simp add: run_topic_def on_event_irc_on_topic_updated_def init_topic_def
      deque_append_def Let_def topic_undo_def issue_topic_def)

section \<open>Waiter sets: no waiter is lost or doubled\<close>

lemma broker_inv_empty: "broker_inv (\<lambda>k. []) 0 []"
  by (simp add: broker_inv_def)

lemma broker_inv_add:
  assumes "broker_inv w n r"
  shows "broker_inv (w(k := w k @ [n])) (Suc n) r"
proof -
  have a1: "distinct (w x)" for x
    using assms by (simp add: broker_inv_def)
  have a2: "d < n \<and> d \<notin> set r" if "d \<in> set (w x)" for d x
    using assms that unfolding broker_inv_def by blast
  have a3: "set (w x) \<inter> set (w y) = {}" if "x \<noteq> y" for x y
    using assms that unfolding broker_inv_def by blast
  have a4: "distinct r"
    using assms by (simp add: broker_inv_def)
  have a5: "d < n" if "d \<in> set r" for d
    using assms that unfolding broker_inv_def by blast
  have fresh: "n \<notin> set (w x)" for x
    using a2 [of n x] by auto
  have freshr: "n \<notin> set r"
    using a5 [of n] by auto
  let ?w = "w(k := w k @ [n])"
  have b1: "distinct (?w x) \<and> (\<forall>d \<in> set (?w x). d < Suc n \<and> d \<notin> set r)" for x
    using a1 [of x] a2 [of _ x] fresh [of x] freshr
    by (auto simp: less_Suc_eq)
  have b2: "set (?w x) \<inter> set (?w y) = {}" if "x \<noteq> y" for x y
    using a3 [OF that] fresh [of x] fresh [of y] that by auto
  have b4: "\<forall>d \<in> set r. d < Suc n"
    using a5 by (auto simp: less_Suc_eq)
  show ?thesis
    unfolding broker_inv_def using b1 b2 a4 b4 by blast
qed

lemma broker_inv_resolve:
  assumes "broker_inv w n r"
  shows "broker_inv (w(k := [])) n (r @ w k)"
proof -
  have a1: "distinct (w x)" for x
    using assms by (simp add: broker_inv_def)
  have a2: "d < n \<and> d \<notin> set r" if "d \<in> set (w x)" for d x
    using assms that unfolding broker_inv_def by blast
  have a3: "set (w x) \<inter> set (w y) = {}" if "x \<noteq> y" for x y
    using assms that unfolding broker_inv_def by blast
  have a4: "distinct r"
    using assms by (simp add: broker_inv_def)
  have a5: "d < n" if "d \<in> set r" for d
    using assms that unfolding broker_inv_def by blast
  let ?w = "w(k := [])"
  have b1: "distinct (?w x) \<and> (\<forall>d \<in> set (?w x). d < n \<and> d \<notin> set (r @ w k))" for x
  proof (cases "x = k")
    case True
    then show ?thesis by simp
  next
    case False
    have "d \<notin> set (w k)" if "d \<in> set (w x)" for d
      using a3 [OF False] that by blast
    with False a1 [of x] a2 [of _ x] show ?thesis by auto
  qed
  have b2: "set (?w x) \<inter> set (?w y) = {}" if "x \<noteq> y" for x y
    using a3 [OF that] by simp
  have b3: "distinct (r @ w k)"
    using a4 a1 [of k] a2 [of _ k] by auto
  have b4: "\<forall>d \<in> set (r @ w k). d < n"
    using a5 a2 [of _ k] by auto
  show ?thesis
    unfolding broker_inv_def using b1 b2 b3 b4 by blast
qed

lemma broker_inv_distinct: "broker_inv w n r \<Longrightarrow> distinct r"
  by (simp add: broker_inv_def)

subsection \<open>The waiters of the permission lookup\<close>

lemma waiters_of_simps [simp]:
  "waiting s h = None \<Longrightarrow> waiters_of s h = []"
  "waiting s h = Some ds \<Longrightarrow> waiters_of s h = ds"
  by (simp_all add: waiters_of_def)

lemma auth_inv_init: "auth_inv init_auth"
proof -
  have "waiters_of init_auth = (\<lambda>k. [])"
    by (simp add: waiters_of_def init_auth_def fun_eq_iff)
  then show ?thesis
    using broker_inv_empty by (simp add: auth_inv_def init_auth_def)
qed

lemma waiters_of_frame [simp]:
  "waiters_of (s\<lparr>authd_users := a\<rparr>) = waiters_of s"
  "waiters_of (s\<lparr>nick_hostmasks := n\<rparr>) = waiters_of s"
  "waiters_of (s\<lparr>fail_timers := f\<rparr>) = waiters_of s"
  "waiters_of (s\<lparr>whois_sent := w\<rparr>) = waiters_of s"
  "waiters_of (s\<lparr>next_fail_timer := k\<rparr>) = waiters_of s"
  "waiters_of (s\<lparr>next_waiter := k\<rparr>) = waiters_of s"
  "waiters_of (s\<lparr>called := c\<rparr>) = waiters_of s"
  by (simp_all add: waiters_of_def fun_eq_iff)

lemma auth_inv_frame [simp]:
  "auth_inv (s\<lparr>authd_users := a\<rparr>) = auth_inv s"
  "auth_inv (s\<lparr>nick_hostmasks := n\<rparr>) = auth_inv s"
  "auth_inv (s\<lparr>fail_timers := f\<rparr>) = auth_inv s"
  "auth_inv (s\<lparr>whois_sent := w\<rparr>) = auth_inv s"
  "auth_inv (s\<lparr>next_fail_timer := k\<rparr>) = auth_inv s"
  by (simp_all add: auth_inv_def)

lemma check_ready_effect:
  "called (check_ready h s) = called s
       @ (case authd_users s h of None \<Rightarrow> []
          | Some a \<Rightarrow> map (\<lambda>d. (d, permissions s a)) (waiters_of s h))"
  "waiters_of (check_ready h s)
     = (if authd_users s h = None then waiters_of s else (waiters_of s)(h := []))"
  "next_waiter (check_ready h s) = next_waiter s"
  "whois_sent (check_ready h s) = whois_sent s"
  "fail_timers (check_ready h s) = fail_timers s"
  "authd_users (check_ready h s) = authd_users s"
  by (auto simp: check_ready_def waiters_of_def Let_def fun_eq_iff split: option.splits)

lemma fail_request_effect:
  "called (fail_request h s) = called s @ map (\<lambda>d. (d, [])) (waiters_of s h)"
  "waiters_of (fail_request h s) = (waiters_of s)(h := [])"
  "next_waiter (fail_request h s) = next_waiter s"
  "whois_sent (fail_request h s) = whois_sent s"
  "fail_timers (fail_request h s) = fail_timers s"
  "authd_users (fail_request h s) = authd_users s"
  by (auto simp: fail_request_def waiters_of_def fun_eq_iff split: option.splits)

lemma auth_inv_check_ready:
  assumes "auth_inv s"
  shows "auth_inv (check_ready h s)"
proof (cases "authd_users s h")
  case None
  with assms show ?thesis by (simp add: auth_inv_def check_ready_effect)
next
  case (Some a)
  from assms have "broker_inv ((waiters_of s)(h := [])) (next_waiter s)
      (map fst (called s) @ waiters_of s h)"
    unfolding auth_inv_def by (rule broker_inv_resolve)
  with Some show ?thesis by (simp add: auth_inv_def check_ready_effect comp_def)
qed

lemma auth_inv_fail_request:
  assumes "auth_inv s"
  shows "auth_inv (fail_request h s)"
proof -
  from assms have "broker_inv ((waiters_of s)(h := [])) (next_waiter s)
      (map fst (called s) @ waiters_of s h)"
    unfolding auth_inv_def by (rule broker_inv_resolve)
  then show ?thesis by (simp add: auth_inv_def fail_request_effect comp_def)
qed

lemma get_permissions_effect:
  assumes "authd_users s h = None"
  shows "fst (get_permissions h s) = Inr (next_waiter s)"
    and "waiters_of (snd (get_permissions h s)) = (waiters_of s)(h := waiters_of s h @ [next_waiter s])"
    and "next_waiter (snd (get_permissions h s)) = Suc (next_waiter s)"
    and "called (snd (get_permissions h s)) = called s"
    and "authd_users (snd (get_permissions h s)) = authd_users s"
    and "whois_sent (snd (get_permissions h s)) =
          (if waiting s h = None then whois_sent s @ [split_first CHR ''!'' h] else whois_sent s)"
    and "fail_timers (snd (get_permissions h s)) =
          (if waiting s h = None then fail_timers s @ [(next_fail_timer s, h)] else fail_timers s)"
    and "waiting (snd (get_permissions h s)) h \<noteq> None"
  using assms
  by (auto simp: get_permissions_def waiters_of_def Let_def fun_eq_iff split: option.splits)

lemma get_permissions_cached:
  assumes "authd_users s h = Some a"
  shows "get_permissions h s = (Inl (case config_perms s a of None \<Rightarrow> [] | Some p \<Rightarrow> p), s)"
  using assms by (simp add: get_permissions_def)

lemma auth_inv_get_permissions:
  assumes "auth_inv s"
  shows "auth_inv (snd (get_permissions h s))"
proof (cases "authd_users s h")
  case None
  from assms have "broker_inv ((waiters_of s)(h := waiters_of s h @ [next_waiter s]))
      (Suc (next_waiter s)) (map fst (called s))"
    unfolding auth_inv_def by (rule broker_inv_add)
  then show ?thesis by (simp add: auth_inv_def get_permissions_effect [OF None])
next
  case (Some a)
  with assms show ?thesis by (simp add: get_permissions_cached)
qed

lemma auth_inv_step: "auth_inv s \<Longrightarrow> auth_inv (auth_step op s)"
proof (cases op)
  case (GetPermissions h)
  assume "auth_inv s"
  with GetPermissions show ?thesis by (simp add: auth_inv_get_permissions)
next
  case (Unknown command params)
  assume "auth_inv s"
  with Unknown show ?thesis
    by (auto simp: on_event_irc_on_unknown_def Let_def auth_inv_check_ready
        split: option.splits)
next
  case (FailTimer c)
  assume "auth_inv s"
  with FailTimer show ?thesis
    by (auto simp: fire_fail_timer_def auth_inv_fail_request split: list.splits)
qed

lemma auth_inv_run: "auth_inv s \<Longrightarrow> auth_inv (run_auth ops s)"
  unfolding run_auth_def by (induction ops arbitrary: s) (simp_all add: auth_inv_step)

subsection \<open>The waiters of the topic fetch\<close>

lemma topic_inv_init: "topic_inv init_topic"
proof -
  have "topic_waiter_ids init_topic = (\<lambda>k. [])"
    by (simp add: topic_waiter_ids_def init_topic_def fun_eq_iff)
  then show ?thesis
    using broker_inv_empty by (simp add: topic_inv_def init_topic_def)
qed

lemma edit_callback_frame [simp]:
  "fired (edit_callback channel ed t s) = fired s"
  "topic_waiters (edit_callback channel ed t s) = topic_waiters s"
  "next_deferred (edit_callback channel ed t s) = next_deferred s"
  "topic_timeouts (edit_callback channel ed t s) = topic_timeouts s"
  "next_timeout (edit_callback channel ed t s) = next_timeout s"
  "topic_queries (edit_callback channel ed t s) = topic_queries s"
  by (cases ed;
      simp add: edit_callback_def append_callback_def insert_callback_def
        replace_callback_def remove_callback_def pop_callback_def Let_def
        split: option.splits sum.splits)+

lemma fire_callback_effect [simp]:
  "fired (fire_callback channel t d s) = fired s @ [(d_id d, t)]"
  "topic_waiters (fire_callback channel t d s) = topic_waiters s"
  "next_deferred (fire_callback channel t d s) = next_deferred s"
  "topic_queries (fire_callback channel t d s) = topic_queries s"
  by (simp_all add: fire_callback_def Let_def split: option.splits)

lemma foldl_fire_callback_effect [simp]:
  "fired (foldl (\<lambda>s d. fire_callback channel t d s) s ds) = fired s @ map (\<lambda>d. (d_id d, t)) ds"
  "topic_waiters (foldl (\<lambda>s d. fire_callback channel t d s) s ds) = topic_waiters s"
  "next_deferred (foldl (\<lambda>s d. fire_callback channel t d s) s ds) = next_deferred s"
  "topic_queries (foldl (\<lambda>s d. fire_callback channel t d s) s ds) = topic_queries s"
  by (induction ds arbitrary: s) simp_all

lemma topic_updated_effect:
  "fired (on_event_irc_on_topic_updated channel t s)
     = fired s @ map (\<lambda>d. (d_id d, t)) (topic_waiters s channel)"
  "topic_waiters (on_event_irc_on_topic_updated channel t s) = (topic_waiters s)(channel := [])"
  "next_deferred (on_event_irc_on_topic_updated channel t s) = next_deferred s"
  "topic_queries (on_event_irc_on_topic_updated channel t s) = topic_queries s"
  by (simp_all add: on_event_irc_on_topic_updated_def Let_def)

lemma failure_not_pending:
  "c \<notin> fst ` set (topic_timeouts s) \<Longrightarrow> failure c s = s"
proof -
  assume "c \<notin> fst ` set (topic_timeouts s)"
  then have "filter (\<lambda>(i, ch). i = c) (topic_timeouts s) = []"
    by (force simp: filter_empty_conv)
  then show ?thesis by (simp add: failure_def)
qed

text \<open>
  The timeout calls no deferred, takes no waiter off its set and replies nothing.
\<close>

lemma failure_effect [simp]:
  "fired (failure c s) = fired s"
  "topic_waiters (failure c s) = topic_waiters s"
  "next_deferred (failure c s) = next_deferred s"
  "next_timeout (failure c s) = next_timeout s"
  "topic_queries (failure c s) = topic_queries s"
  "topic_requests (failure c s) = topic_requests s"
  "topic_replies (failure c s) = topic_replies s"
  by (simp_all add: failure_def split: list.splits prod.splits)

lemma failure_pending:
  assumes "filter (\<lambda>(i, ch). i = c) (topic_timeouts s) = (i, channel) # rest"
  shows "topic_timeouts (failure c s) = filter (\<lambda>(i, ch). i \<noteq> c) (topic_timeouts s)"
    and "topic_errors (failure c s) = topic_errors s @ [TypeError]"
  using assms by (simp_all add: failure_def)

lemma topic_waiter_ids_upd:
  "topic_waiter_ids (s\<lparr>topic_waiters := (topic_waiters s)(channel := ws)\<rparr>)
     = (topic_waiter_ids s)(channel := map d_id ws)"
  by (simp add: topic_waiter_ids_def fun_eq_iff)

lemma topic_inv_updated:
  assumes "topic_inv s"
  shows "topic_inv (on_event_irc_on_topic_updated channel t s)"
proof -
  let ?s = "on_event_irc_on_topic_updated channel t s"
  have w: "topic_waiter_ids ?s = (topic_waiter_ids s)(channel := [])"
    by (simp add: topic_waiter_ids_def topic_updated_effect fun_eq_iff)
  have f: "map fst (fired ?s) = map fst (fired s) @ topic_waiter_ids s channel"
    by (simp add: topic_updated_effect topic_waiter_ids_def comp_def)
  from assms have "broker_inv ((topic_waiter_ids s)(channel := [])) (next_deferred s)
      (map fst (fired s) @ topic_waiter_ids s channel)"
    unfolding topic_inv_def by (rule broker_inv_resolve)
  then show ?thesis
    unfolding topic_inv_def w f by (simp add: topic_updated_effect)
qed

lemma topic_inv_failure:
  assumes "topic_inv s"
  shows "topic_inv (failure c s)"
proof -
  have "topic_waiter_ids (failure c s) = topic_waiter_ids s"
    by (simp add: topic_waiter_ids_def fun_eq_iff)
  with assms show ?thesis by (simp add: topic_inv_def)
qed

lemma get_current_topic_cached:
  "topic_stack s channel \<noteq> [] \<Longrightarrow>
     get_current_topic channel s = (Inl (last (topic_stack s channel)), s)"
  by (simp add: get_current_topic_def)

lemma get_current_topic_effect:
  assumes "topic_stack s channel = []"
  shows "fst (get_current_topic channel s) = Inr (next_deferred s)"
    and "topic_waiters (snd (get_current_topic channel s))
          = (topic_waiters s)(channel := topic_waiters s channel
               @ [\<lparr>d_id = next_deferred s,
                   d_timer = (if topic_waiters s channel = [] then Some (next_timeout s) else None),
                   d_edit = None\<rparr>])"
    and "next_deferred (snd (get_current_topic channel s)) = Suc (next_deferred s)"
    and "fired (snd (get_current_topic channel s)) = fired s"
    and "topic_queries (snd (get_current_topic channel s)) = topic_queries s @ [channel]"
    and "topic_timeouts (snd (get_current_topic channel s))
          = (if topic_waiters s channel = [] then topic_timeouts s @ [(next_timeout s, channel)]
             else topic_timeouts s)"
    and "topic_requests (snd (get_current_topic channel s)) = topic_requests s"
  using assms by (simp_all add: get_current_topic_def Let_def)

lemma topic_inv_get_current_topic:
  assumes "topic_inv s"
  shows "topic_inv (snd (get_current_topic channel s))"
proof (cases "topic_stack s channel = []")
  case False
  with assms show ?thesis by (simp add: get_current_topic_cached)
next
  case True
  note e = get_current_topic_effect [OF True]
  have w: "topic_waiter_ids (snd (get_current_topic channel s))
      = (topic_waiter_ids s)(channel := topic_waiter_ids s channel @ [next_deferred s])"
    by (simp add: topic_waiter_ids_def e fun_eq_iff)
  from assms have "broker_inv ((topic_waiter_ids s)(channel := topic_waiter_ids s channel
      @ [next_deferred s])) (Suc (next_deferred s)) (map fst (fired s))"
    unfolding topic_inv_def by (rule broker_inv_add)
  then show ?thesis
    unfolding topic_inv_def w by (simp add: e)
qed

lemma add_callbacks_frame:
  "topic_waiter_ids (add_callbacks channel ed d s) = topic_waiter_ids s"
  "next_deferred (add_callbacks channel ed d s) = next_deferred s"
  "fired (add_callbacks channel ed d s) = fired s"
  "topic_queries (add_callbacks channel ed d s) = topic_queries s"
  "topic_timeouts (add_callbacks channel ed d s) = topic_timeouts s"
  by (cases d; simp add: add_callbacks_def topic_waiter_ids_def fun_eq_iff comp_def if_distrib
        cong: if_cong)+

lemma topic_inv_command:
  assumes "topic_inv s"
  shows "topic_inv (topic_command channel ed s)"
proof -
  obtain d s1 where g: "get_current_topic channel s = (d, s1)"
    by (cases "get_current_topic channel s")
  with topic_inv_get_current_topic [OF assms, of channel] have "topic_inv s1" by simp
  then have "topic_inv (add_callbacks channel ed d s1)"
    by (simp add: topic_inv_def add_callbacks_frame)
  with g show ?thesis by (simp add: topic_command_def)
qed

lemma topic_undo_frame:
  "topic_waiters (topic_undo channel s) = topic_waiters s"
  "next_deferred (topic_undo channel s) = next_deferred s"
  "fired (topic_undo channel s) = fired s"
  "topic_queries (topic_undo channel s) = topic_queries s"
  "topic_timeouts (topic_undo channel s) = topic_timeouts s"
  by (simp_all add: topic_undo_def Let_def)

lemma topic_inv_undo:
  assumes "topic_inv s"
  shows "topic_inv (topic_undo channel s)"
proof -
  have "topic_waiter_ids (topic_undo channel s) = topic_waiter_ids s"
    by (simp add: fun_eq_iff topic_waiter_ids_def topic_undo_frame)
  with assms show ?thesis by (simp add: topic_inv_def topic_undo_frame)
qed

lemma topic_inv_step: "topic_inv s \<Longrightarrow> topic_inv (topic_step op s)"
  by (cases op) (simp_all add: topic_inv_updated topic_inv_failure topic_inv_command topic_inv_undo)

lemma topic_inv_run: "topic_inv s \<Longrightarrow> topic_inv (run_topic ops s)"
  unfolding run_topic_def by (induction ops arbitrary: s) (simp_all add: topic_inv_step)

section \<open>The whois account line and the timeout, as steps\<close>

lemma whois_account_effect:
  assumes "nick_hostmasks s nick = Some h"
  shows "auth_step (Unknown ''330'' [x, nick, authname]) s
     = check_ready h (s\<lparr>nick_hostmasks := (nick_hostmasks s)(nick := None),
                        authd_users := (authd_users s)(h \<mapsto> authname)\<rparr>)"
  using assms by (simp add: on_event_irc_on_unknown_def Let_def)

lemma fire_fail_timer_effect:
  assumes "filter (\<lambda>(i, h). i = c) (fail_timers s) = (i, h) # rest"
  shows "fire_fail_timer c s
     = fail_request h (s\<lparr>fail_timers := filter (\<lambda>(i, h). i \<noteq> c) (fail_timers s)\<rparr>)"
  using assms by (simp add: fire_fail_timer_def)

lemma fire_fail_timer_nick_hostmasks [simp]:
  "nick_hostmasks (fire_fail_timer c s) = nick_hostmasks s"
  by (simp add: fire_fail_timer_def fail_request_def split: list.splits option.splits)

section \<open>Requests issued for a waiter set\<close>

lemma get_permissions_attach:
  assumes "authd_users s h = None" and "waiting s h = Some ds"
  shows "get_permissions h s
     = (Inr (next_waiter s),
        s\<lparr>waiting := (waiting s)(h \<mapsto> ds @ [next_waiter s]),
          next_waiter := Suc (next_waiter s)\<rparr>)"
  using assms by (simp add: get_permissions_def Let_def)

lemma get_permissions_first:
  assumes "authd_users s h = None" and "waiting s h = None"
  shows "get_permissions h s
     = (Inr (next_waiter s),
        s\<lparr>waiting := (waiting s)(h \<mapsto> [next_waiter s]),
          next_waiter := Suc (next_waiter s),
          whois_sent := whois_sent s @ [split_first CHR ''!'' h],
          fail_timers := fail_timers s @ [(next_fail_timer s, h)],
          next_fail_timer := Suc (next_fail_timer s)\<rparr>)"
  using assms by (simp add: get_permissions_def Let_def)

lemma upt_shift: "a # [Suc a..<Suc (a + n)] = [a..<Suc (a + n)]"
  by (simp add: upt_conv_Cons)

lemma get_permissions_attach_many:
  assumes "authd_users s h = None" and "waiting s h = Some ds"
  shows "whois_sent (((\<lambda>s. snd (get_permissions h s)) ^^ n) s) = whois_sent s
     \<and> fail_timers (((\<lambda>s. snd (get_permissions h s)) ^^ n) s) = fail_timers s
     \<and> waiting (((\<lambda>s. snd (get_permissions h s)) ^^ n) s) h
          = Some (ds @ [next_waiter s..<next_waiter s + n])"
  using assms
proof (induction n arbitrary: s ds)
  case 0
  then show ?case by simp
next
  case (Suc n)
  let ?s1 = "snd (get_permissions h s)"
  have s1: "?s1 = s\<lparr>waiting := (waiting s)(h \<mapsto> ds @ [next_waiter s]),
          next_waiter := Suc (next_waiter s)\<rparr>"
    using get_permissions_attach [OF Suc.prems] by simp
  have a: "authd_users ?s1 h = None" "waiting ?s1 h = Some (ds @ [next_waiter s])"
    using Suc.prems by (simp_all add: s1)
  have f: "whois_sent ?s1 = whois_sent s" "fail_timers ?s1 = fail_timers s"
    "next_waiter ?s1 = Suc (next_waiter s)"
    by (simp_all add: s1)
  from Suc.IH [OF a] show ?case
    unfolding funpow_Suc_right o_apply f
    by (simp add: upt_shift del: upt_Suc)
qed

lemma get_permissions_many:
  assumes "authd_users s h = None" and "waiting s h = None"
  shows "whois_sent (((\<lambda>s. snd (get_permissions h s)) ^^ Suc n) s)
          = whois_sent s @ [split_first CHR ''!'' h]
     \<and> fail_timers (((\<lambda>s. snd (get_permissions h s)) ^^ Suc n) s)
          = fail_timers s @ [(next_fail_timer s, h)]
     \<and> waiting (((\<lambda>s. snd (get_permissions h s)) ^^ Suc n) s) h
          = Some ([next_waiter s..<next_waiter s + Suc n])"
proof -
  let ?s1 = "snd (get_permissions h s)"
  have s1: "?s1 = s\<lparr>waiting := (waiting s)(h \<mapsto> [next_waiter s]),
          next_waiter := Suc (next_waiter s),
          whois_sent := whois_sent s @ [split_first CHR ''!'' h],
          fail_timers := fail_timers s @ [(next_fail_timer s, h)],
          next_fail_timer := Suc (next_fail_timer s)\<rparr>"
    using get_permissions_first [OF assms] by simp
  have a: "authd_users ?s1 h = None" "waiting ?s1 h = Some [next_waiter s]"
    using assms by (simp_all add: s1)
  have f: "whois_sent ?s1 = whois_sent s @ [split_first CHR ''!'' h]"
    "fail_timers ?s1 = fail_timers s @ [(next_fail_timer s, h)]"
    "next_waiter ?s1 = Suc (next_waiter s)"
    by (simp_all add: s1)
  from get_permissions_attach_many [OF a, of n] show ?thesis
    unfolding funpow_Suc_right o_apply f
    by (simp add: upt_shift del: upt_Suc)
qed

lemma get_current_topic_many:
  assumes "topic_stack s ch = []"
  shows "topic_queries (((\<lambda>s. snd (get_current_topic ch s)) ^^ n) s)
          = topic_queries s @ replicate n ch
     \<and> map d_id (topic_waiters (((\<lambda>s. snd (get_current_topic ch s)) ^^ n) s) ch)
          = map d_id (topic_waiters s ch) @ [next_deferred s..<next_deferred s + n]
     \<and> topic_timeouts (((\<lambda>s. snd (get_current_topic ch s)) ^^ n) s)
          = (if topic_waiters s ch = [] \<and> 0 < n
             then topic_timeouts s @ [(next_timeout s, ch)] else topic_timeouts s)"
  using assms
proof (induction n arbitrary: s)
  case 0
  then show ?case by simp
next
  case (Suc n)
  let ?s1 = "snd (get_current_topic ch s)"
  note e = get_current_topic_effect [OF Suc.prems]
  have st: "topic_stack ?s1 ch = []"
    using Suc.prems by simp
  have ne: "topic_waiters ?s1 ch \<noteq> []" by (simp add: e)
  have r: "replicate n ch @ [ch] = ch # replicate n ch"
    by (simp add: replicate_append_same)
  from Suc.IH [OF st] show ?case
    unfolding funpow_Suc_right o_apply
    by (simp add: e ne upt_shift r del: upt_Suc)
qed

text \<open>
  C1, as the code has it. Permission lookup: a call for a hostmask that is not
  authenticated and already has an entry in \<open>waiting\<close> adds its deferred to the entry,
  sends no whois and arms no timeout; so \<open>Suc n\<close> calls in a row for a hostmask with no
  entry send one whois, arm one timeout and leave \<open>Suc n\<close> waiters. Topic fetch: with
  an empty history every call sends a topic query, so \<open>n\<close> calls send \<open>n\<close> queries; the
  waiters join one set and the timeout is armed once, by the call that finds the set
  empty.
\<close>

theorem one_whois_per_waiter_set:
  "(authd_users s h = None \<and> waiting s h = Some ds \<longrightarrow>
      fst (get_permissions h s) = Inr (next_waiter s)
      \<and> whois_sent (snd (get_permissions h s)) = whois_sent s
      \<and> fail_timers (snd (get_permissions h s)) = fail_timers s
      \<and> waiting (snd (get_permissions h s)) h = Some (ds @ [next_waiter s]))
   \<and> (authd_users s h = None \<and> waiting s h = None \<longrightarrow>
      (let s' = ((\<lambda>s. snd (get_permissions h s)) ^^ Suc n) s in
         whois_sent s' = whois_sent s @ [split_first CHR ''!'' h]
         \<and> fail_timers s' = fail_timers s @ [(next_fail_timer s, h)]
         \<and> waiting s' h = Some ([next_waiter s..<next_waiter s + Suc n])))
   \<and> (topic_stack ts channel = [] \<longrightarrow>
      (let ts' = ((\<lambda>s. snd (get_current_topic channel s)) ^^ n) ts in
         topic_queries ts' = topic_queries ts @ replicate n channel
         \<and> map d_id (topic_waiters ts' channel)
              = map d_id (topic_waiters ts channel) @ [next_deferred ts..<next_deferred ts + n]
         \<and> topic_timeouts ts'
              = (if topic_waiters ts channel = [] \<and> 0 < n
                 then topic_timeouts ts @ [(next_timeout ts, channel)] else topic_timeouts ts)))"
proof -
  have a: "fst (get_permissions h s) = Inr (next_waiter s)
      \<and> whois_sent (snd (get_permissions h s)) = whois_sent s
      \<and> fail_timers (snd (get_permissions h s)) = fail_timers s
      \<and> waiting (snd (get_permissions h s)) h = Some (ds @ [next_waiter s])"
    if "authd_users s h = None \<and> waiting s h = Some ds"
    using that by (simp add: get_permissions_attach)
  have b: "let s' = ((\<lambda>s. snd (get_permissions h s)) ^^ Suc n) s in
         whois_sent s' = whois_sent s @ [split_first CHR ''!'' h]
         \<and> fail_timers s' = fail_timers s @ [(next_fail_timer s, h)]
         \<and> waiting s' h = Some ([next_waiter s..<next_waiter s + Suc n])"
    if "authd_users s h = None \<and> waiting s h = None"
    unfolding Let_def using that get_permissions_many [of s h n] by blast
  have c: "let ts' = ((\<lambda>s. snd (get_current_topic channel s)) ^^ n) ts in
         topic_queries ts' = topic_queries ts @ replicate n channel
         \<and> map d_id (topic_waiters ts' channel)
              = map d_id (topic_waiters ts channel) @ [next_deferred ts..<next_deferred ts + n]
         \<and> topic_timeouts ts'
              = (if topic_waiters ts channel = [] \<and> 0 < n
                 then topic_timeouts ts @ [(next_timeout ts, channel)] else topic_timeouts ts)"
    if "topic_stack ts channel = []"
    unfolding Let_def using get_current_topic_many [OF that, of n] by blast
  from a b c show ?thesis by blast
qed

text \<open>
  The claim as stated fails for the topic fetch: a second call, made while the first
  waiter is still waiting, sends a second topic query.
\<close>

theorem topic_query_repeated_counterexample:
  "(let s1 = snd (get_current_topic ''#c'' init_topic);
        s2 = snd (get_current_topic ''#c'' s1) in
      topic_queries s1 = [''#c''] \<and> map d_id (topic_waiters s1 ''#c'') = [0] \<and> fired s1 = []
      \<and> topic_queries s2 = [''#c'', ''#c''] \<and> map d_id (topic_waiters s2 ''#c'') = [0, 1])"
  by (simp add: get_current_topic_def init_topic_def Let_def)

theorem one_whois_per_waiter_set_witness:
  "authd_users init_auth ''n!u@h'' = None \<and> waiting init_auth ''n!u@h'' = None
   \<and> topic_stack init_topic ''#c'' = []
   \<and> (let s' = ((\<lambda>s. snd (get_permissions ''n!u@h'' s)) ^^ Suc 2) init_auth in
        whois_sent s' = [''n''] \<and> fail_timers s' = [(0, ''n!u@h'')]
        \<and> waiting s' ''n!u@h'' = Some [0, 1, 2])
   \<and> (let s1 = snd (get_permissions ''n!u@h'' init_auth) in
        waiting s1 ''n!u@h'' = Some [0]
        \<and> whois_sent (snd (get_permissions ''n!u@h'' s1)) = whois_sent s1
        \<and> waiting (snd (get_permissions ''n!u@h'' s1)) ''n!u@h'' = Some [0, 1])
   \<and> (let ts' = ((\<lambda>s. snd (get_current_topic ''#c'' s)) ^^ 3) init_topic in
        topic_queries ts' = [''#c'', ''#c'', ''#c''] \<and> topic_timeouts ts' = [(0, ''#c'')]
        \<and> map d_id (topic_waiters ts' ''#c'') = [0, 1, 2])"
proof -
  let ?s1 = "snd (get_permissions ''n!u@h'' init_auth)"
  have i: "authd_users init_auth ''n!u@h'' = None" "waiting init_auth ''n!u@h'' = None"
    "whois_sent init_auth = []" "fail_timers init_auth = []" "next_fail_timer init_auth = 0"
    "next_waiter init_auth = 0"
    by (simp_all add: init_auth_def)
  have s1: "authd_users ?s1 ''n!u@h'' = None" "waiting ?s1 ''n!u@h'' = Some [0]"
    "next_waiter ?s1 = 1"
    by (simp_all add: get_permissions_def init_auth_def Let_def)
  have it: "topic_stack init_topic ''#c'' = []" "topic_queries init_topic = []"
    "topic_waiters init_topic ''#c'' = []" "topic_timeouts init_topic = []"
    "next_deferred init_topic = 0" "next_timeout init_topic = 0"
    by (simp_all add: init_topic_def)
  have u: "[0..<3] = [0, 1, 2]" "[0..<Suc 2] = [0, 1, 2]" "replicate 3 x = [x, x, x]" for x :: string
    by (simp_all add: upt_rec numeral_3_eq_3)
  from one_whois_per_waiter_set [of init_auth "''n!u@h''" "[]" 2 init_topic "''#c''"]
    one_whois_per_waiter_set [of ?s1 "''n!u@h''" "[0]" 3 init_topic "''#c''"]
  show ?thesis
    unfolding Let_def by (simp add: i s1 it u split_first_def)
qed

section \<open>Waiters resolved by the response and by the timeout\<close>

lemma auth_live_init: "auth_live init_auth"
  by (simp add: auth_live_def init_auth_def waiters_of_def)

lemma filter_id_pairs:
  assumes "distinct (map fst xs)" and "filter (\<lambda>(i, h). i = c) xs = (i, k) # rest"
  shows "i = c \<and> (c, k) \<in> set xs \<and> (\<forall>k'. (c, k') \<in> set xs \<longrightarrow> k' = k)"
proof -
  have m: "(i, k) \<in> set (filter (\<lambda>(i, h). i = c) xs)"
    unfolding assms(2) by simp
  then have ic: "i = c" and inx: "(c, k) \<in> set xs" by auto
  have "k' = k" if "(c, k') \<in> set xs" for k'
    using assms(1) inx that by (meson eq_key_imp_eq_value)
  with ic inx show ?thesis by blast
qed

lemma waiters_of_waiting_upd [simp]:
  "waiters_of (s\<lparr>waiting := m\<rparr>) x = (case m x of None \<Rightarrow> [] | Some ds \<Rightarrow> ds)"
  by (simp add: waiters_of_def)

lemma auth_live_get_permissions:
  assumes "auth_live s"
  shows "auth_live (snd (get_permissions h s))"
proof (cases "authd_users s h")
  case (Some a)
  with assms show ?thesis by (simp add: get_permissions_cached)
next
  case None
  note L = assms [unfolded auth_live_def]
  show ?thesis
  proof (cases "waiting s h")
    case (Some ds)
    from L Some None have ne: "ds \<noteq> []" by auto
    let ?s' = "s\<lparr>waiting := (waiting s)(h \<mapsto> ds @ [next_waiter s]),
          next_waiter := Suc (next_waiter s)\<rparr>"
    have w: "waiters_of ?s' x = (if x = h then ds @ [next_waiter s] else waiters_of s x)" for x
      by (simp add: waiters_of_def)
    have w': "(case waiting s x of None \<Rightarrow> [] | Some ds \<Rightarrow> ds) = waiters_of s x" for x
      by (simp add: waiters_of_def)
    have wh: "waiters_of s h = ds" using Some by simp
    have "auth_live ?s'"
      unfolding auth_live_def using L ne wh
      by (auto simp: w')
    then show ?thesis
      by (simp add: get_permissions_attach [OF None Some])
  next
    case none: None
    let ?s' = "s\<lparr>waiting := (waiting s)(h \<mapsto> [next_waiter s]),
          next_waiter := Suc (next_waiter s),
          whois_sent := whois_sent s @ [split_first CHR ''!'' h],
          fail_timers := fail_timers s @ [(next_fail_timer s, h)],
          next_fail_timer := Suc (next_fail_timer s)\<rparr>"
    have w: "(case waiting s x of None \<Rightarrow> [] | Some ds \<Rightarrow> ds) = waiters_of s x" for x
      by (simp add: waiters_of_def)
    have wh: "waiters_of s h = []" using none by simp
    have noh: "(c, h) \<notin> set (fail_timers s)" for c
    proof
      assume "(c, h) \<in> set (fail_timers s)"
      then have "h \<in> snd ` set (fail_timers s)" by force
      with L None have "waiters_of s h \<noteq> []" by blast
      with wh show False by simp
    qed
    have fresh: "next_fail_timer s \<notin> fst ` set (fail_timers s)"
      using L by fastforce
    have "auth_live ?s'"
      unfolding auth_live_def
    proof (intro conjI allI impI ballI)
      show "distinct (map fst (fail_timers ?s'))"
        using L fresh by simp
    next
      fix x assume "x \<in> set (fail_timers ?s')"
      with L show "fst x < next_fail_timer ?s'" by (auto simp: less_Suc_eq)
    next
      fix x assume "waiters_of ?s' x \<noteq> []"
      with L show "x \<in> snd ` set (fail_timers ?s')"
        by (cases "x = h") (auto simp: w)
    next
      fix x assume "waiting ?s' x = Some []"
      with L show "authd_users ?s' x \<noteq> None"
        by (cases "x = h") auto
    next
      fix x assume "x \<in> snd ` set (fail_timers ?s')" "authd_users ?s' x = None"
      with L show "waiters_of ?s' x \<noteq> []"
        by (cases "x = h") (auto simp: w)
    next
      fix c c' x
      assume "(c, x) \<in> set (fail_timers ?s')" "(c', x) \<in> set (fail_timers ?s')"
        "authd_users ?s' x = None"
      with L noh show "c = c'"
        by (cases "x = h") auto
    qed
    then show ?thesis
      by (simp add: get_permissions_first [OF None none])
  qed
qed

lemma waiters_of_case:
  "(case waiting s x of None \<Rightarrow> [] | Some ds \<Rightarrow> ds) = waiters_of s x"
  by (simp add: waiters_of_def)

lemma check_ready_waiting:
  "authd_users s h \<noteq> None \<Longrightarrow> waiting (check_ready h s) h = None \<or> waiting (check_ready h s) h = Some []"
  "x \<noteq> h \<Longrightarrow> waiting (check_ready h s) x = waiting s x"
  by (auto simp: check_ready_def Let_def split: option.splits)

lemma fail_request_waiting:
  "waiting (fail_request h s) h = (if waiters_of s h = [] then Some [] else None)"
  "x \<noteq> h \<Longrightarrow> waiting (fail_request h s) x = waiting s x"
  by (auto simp: fail_request_def waiters_of_def split: option.splits)

lemma auth_live_account:
  assumes "auth_live s"
  shows "auth_live (check_ready h (s\<lparr>nick_hostmasks := n, authd_users := (authd_users s)(h \<mapsto> a)\<rparr>))"
proof -
  note L = assms [unfolded auth_live_def]
  let ?s1 = "s\<lparr>nick_hostmasks := n, authd_users := (authd_users s)(h \<mapsto> a)\<rparr>"
  let ?s' = "check_ready h ?s1"
  have au: "authd_users ?s1 h \<noteq> None" by simp
  have w: "waiters_of ?s' = (waiters_of s)(h := [])"
    by (simp add: check_ready_effect)
  have wt: "waiting ?s' h = None \<or> waiting ?s' h = Some []"
    using check_ready_waiting(1) [OF au] .
  have wo: "waiting ?s' x = waiting s x" if "x \<noteq> h" for x
    using check_ready_waiting(2) [OF that, of ?s1] by simp
  have f: "fail_timers ?s' = fail_timers s" "next_fail_timer ?s' = next_fail_timer s"
    "authd_users ?s' = (authd_users s)(h \<mapsto> a)"
    by (simp_all add: check_ready_effect) (simp add: check_ready_def Let_def split: option.splits)
  show ?thesis
    unfolding auth_live_def f w
  proof (intro conjI allI impI ballI)
    show "distinct (map fst (fail_timers s))" using L by simp
  next
    fix x assume "x \<in> set (fail_timers s)"
    with L show "fst x < next_fail_timer s" by simp
  next
    fix x assume "((waiters_of s)(h := [])) x \<noteq> []"
    with L show "x \<in> snd ` set (fail_timers s)" by (auto split: if_splits)
  next
    fix x assume a: "waiting ?s' x = Some []"
    show "((authd_users s)(h \<mapsto> a)) x \<noteq> None"
    proof (cases "x = h")
      case True then show ?thesis by simp
    next
      case False
      with a wo have "waiting s x = Some []" by simp
      with L False show ?thesis by auto
    qed
  next
    fix x assume "x \<in> snd ` set (fail_timers s)" "((authd_users s)(h \<mapsto> a)) x = None"
    with L show "((waiters_of s)(h := [])) x \<noteq> []" by (auto split: if_splits)
  next
    fix c c' x
    assume "(c, x) \<in> set (fail_timers s)" "(c', x) \<in> set (fail_timers s)"
      "((authd_users s)(h \<mapsto> a)) x = None"
    with L show "c = c'" by (auto split: if_splits)
  qed
qed

lemma auth_live_frame [simp]:
  "auth_live (s\<lparr>nick_hostmasks := n\<rparr>) = auth_live s"
  by (simp add: auth_live_def waiters_of_def)

lemma auth_live_fire_fail_timer:
  assumes "auth_live s"
  shows "auth_live (fire_fail_timer c s)"
proof (cases "filter (\<lambda>(i, h). i = c) (fail_timers s)")
  case Nil
  with assms show ?thesis by (simp add: fire_fail_timer_def)
next
  case (Cons x rest)
  obtain i h where x: "x = (i, h)" by (cases x)
  note t = Cons [unfolded x]
  note L = assms [unfolded auth_live_def]
  from L have dist: "distinct (map fst (fail_timers s))" by simp
  from filter_id_pairs [OF dist t] have
    inx: "(c, h) \<in> set (fail_timers s)" and uniq: "\<And>k'. (c, k') \<in> set (fail_timers s) \<Longrightarrow> k' = h"
    by blast+
  let ?T = "filter (\<lambda>(i, h). i \<noteq> c) (fail_timers s)"
  let ?s1 = "s\<lparr>fail_timers := ?T\<rparr>"
  let ?s' = "fail_request h ?s1"
  have eq: "fire_fail_timer c s = ?s'" by (rule fire_fail_timer_effect [OF t])
  have w: "waiters_of ?s' = (waiters_of s)(h := [])"
    by (simp add: fail_request_effect)
  have f: "fail_timers ?s' = ?T" "next_fail_timer ?s' = next_fail_timer s"
    "authd_users ?s' = authd_users s"
    by (simp_all add: fail_request_effect) (simp add: fail_request_def split: option.splits)
  have wt: "waiting ?s' h = (if waiters_of s h = [] then Some [] else None)"
    using fail_request_waiting(1) [of h ?s1] by simp
  have wo: "waiting ?s' y = waiting s y" if "y \<noteq> h" for y
    using fail_request_waiting(2) [OF that, of ?s1] by simp
  have Tset: "set ?T = {p \<in> set (fail_timers s). fst p \<noteq> c}" by auto
  have other: "y \<in> snd ` set ?T" if "y \<in> snd ` set (fail_timers s)" "y \<noteq> h" for y
  proof -
    from that(1) obtain c' where c': "(c', y) \<in> set (fail_timers s)" by auto
    with uniq that(2) have "c' \<noteq> c" by blast
    with c' show ?thesis by (force simp: Tset)
  qed
  show ?thesis
    unfolding eq auth_live_def f w
  proof (intro conjI allI impI ballI)
    show "distinct (map fst ?T)" using dist by (simp add: distinct_map_filter)
  next
    fix p assume "p \<in> set ?T"
    with L show "fst p < next_fail_timer s" by auto
  next
    fix y assume a: "((waiters_of s)(h := [])) y \<noteq> []"
    then have yh: "y \<noteq> h" and "waiters_of s y \<noteq> []" by (auto split: if_splits)
    with L have "y \<in> snd ` set (fail_timers s)" by blast
    with yh show "y \<in> snd ` set ?T" by (rule other [rotated -1])
  next
    fix y assume a: "waiting ?s' y = Some []"
    show "authd_users s y \<noteq> None"
    proof (cases "y = h")
      case False
      with a wo have "waiting s y = Some []" by simp
      with L show ?thesis by blast
    next
      case True
      show ?thesis
      proof
        assume n: "authd_users s y = None"
        from inx have "h \<in> snd ` set (fail_timers s)" by force
        with L n True have "waiters_of s h \<noteq> []" by blast
        with a True wt show False by simp
      qed
    qed
  next
    fix y assume a: "y \<in> snd ` set ?T" "authd_users s y = None"
    then obtain c' where c': "(c', y) \<in> set (fail_timers s)" "c' \<noteq> c" by (auto simp: Tset)
    have yh: "y \<noteq> h"
    proof
      assume "y = h"
      with L c'(1) inx a(2) have "c' = c" by blast
      with c'(2) show False by simp
    qed
    from c'(1) have "y \<in> snd ` set (fail_timers s)" by force
    with L a(2) have "waiters_of s y \<noteq> []" by blast
    with yh show "((waiters_of s)(h := [])) y \<noteq> []" by simp
  next
    fix c1 c2 y
    assume "(c1, y) \<in> set ?T" "(c2, y) \<in> set ?T" "authd_users s y = None"
    with L show "c1 = c2" by (auto simp: Tset)
  qed
qed

lemma auth_live_step: "auth_live s \<Longrightarrow> auth_live (auth_step op s)"
proof (cases op)
  case (GetPermissions h)
  assume "auth_live s"
  with GetPermissions show ?thesis by (simp add: auth_live_get_permissions)
next
  case (Unknown command params)
  assume "auth_live s"
  with Unknown show ?thesis
    by (auto simp: on_event_irc_on_unknown_def Let_def auth_live_account
        split: option.splits)
next
  case (FailTimer c)
  assume "auth_live s"
  with FailTimer show ?thesis by (simp add: auth_live_fire_fail_timer)
qed

lemma auth_live_run: "auth_live s \<Longrightarrow> auth_live (run_auth ops s)"
  unfolding run_auth_def by (induction ops arbitrary: s) (simp_all add: auth_live_step)

text \<open>
  The permission lookup: in every run from the initial state no deferred is called
  twice, and whenever a deferred waits under a hostmask a timeout of the hostmask is
  pending. The whois account line of a hostmask calls every deferred that waits under
  it and leaves none waiting; so does the timeout (\<^verbatim>\<open>reactor.callLater\<close> is given the
  hostmask for \<^verbatim>\<open>_fail_request\<close>); and an account line that comes after the timeout
  calls nothing.
\<close>

lemma auth_waiters_resolved_once:
  "distinct (map fst (called (run_auth ops init_auth)))
   \<and> (\<forall>k. waiters_of (run_auth ops init_auth) k \<noteq> [] \<longrightarrow>
          k \<in> snd ` set (fail_timers (run_auth ops init_auth)))
   \<and> (nick_hostmasks s nick = Some h \<longrightarrow>
        (let s' = auth_step (Unknown ''330'' [x, nick, authname]) s in
           called s' = called s @ map (\<lambda>d. (d, permissions s authname)) (waiters_of s h)
           \<and> waiters_of s' h = []))
   \<and> (filter (\<lambda>(i, h). i = c) (fail_timers s) = (i, h) # rest \<longrightarrow>
        (let s' = fire_fail_timer c s in
           called s' = called s @ map (\<lambda>d. (d, [])) (waiters_of s h)
           \<and> waiters_of s' h = []
           \<and> (nick_hostmasks s' nick = Some h \<longrightarrow>
                 called (auth_step (Unknown ''330'' [x, nick, authname]) s') = called s')))"
proof -
  have a: "distinct (map fst (called (run_auth ops init_auth)))"
    using auth_inv_run [OF auth_inv_init, of ops]
    unfolding auth_inv_def by (rule broker_inv_distinct)
  have a': "\<forall>k. waiters_of (run_auth ops init_auth) k \<noteq> [] \<longrightarrow>
          k \<in> snd ` set (fail_timers (run_auth ops init_auth))"
    using auth_live_run [OF auth_live_init, of ops] unfolding auth_live_def by blast
  have c: "let s' = auth_step (Unknown ''330'' [x, nick, authname]) s in
           called s' = called s @ map (\<lambda>d. (d, permissions s authname)) (waiters_of s h)
           \<and> waiters_of s' h = []"
    if "nick_hostmasks s nick = Some h"
    unfolding Let_def whois_account_effect [OF that]
    by (simp add: check_ready_effect)
  have d: "let s' = fire_fail_timer c s in
           called s' = called s @ map (\<lambda>d. (d, [])) (waiters_of s h)
           \<and> waiters_of s' h = []
           \<and> (nick_hostmasks s' nick = Some h \<longrightarrow>
                 called (auth_step (Unknown ''330'' [x, nick, authname]) s') = called s')"
    if t: "filter (\<lambda>(i, h). i = c) (fail_timers s) = (i, h) # rest"
  proof -
    let ?s' = "fire_fail_timer c s"
    have w: "waiters_of ?s' h = []"
      unfolding fire_fail_timer_effect [OF t] by (simp add: fail_request_effect)
    have l: "called (auth_step (Unknown ''330'' [x, nick, authname]) ?s') = called ?s'"
      if "nick_hostmasks ?s' nick = Some h"
      unfolding whois_account_effect [OF that]
      using w by (simp add: check_ready_effect)
    show ?thesis
      unfolding Let_def using w l
      by (simp add: fire_fail_timer_effect [OF t] fail_request_effect)
  qed
  from a a' c d show ?thesis by blast
qed

text \<open>
  The topic fetch: in every run from the initial state no deferred is called twice,
  and the topic-updated notification of a channel calls every deferred that waits
  under the channel and leaves none waiting.
\<close>

lemma topic_waiters_fired_once:
  "distinct (map fst (fired (run_topic tops init_topic)))
   \<and> fired (on_event_irc_on_topic_updated channel newtopic ts)
        = fired ts @ map (\<lambda>d. (d_id d, newtopic)) (topic_waiters ts channel)
   \<and> topic_waiters (on_event_irc_on_topic_updated channel newtopic ts) channel = []"
proof -
  have "distinct (map fst (fired (run_topic tops init_topic)))"
    using topic_inv_run [OF topic_inv_init, of tops]
    unfolding topic_inv_def by (rule broker_inv_distinct)
  then show ?thesis by (simp add: topic_updated_effect)
qed

text \<open>
  C2 fails on the timeout of the topic fetch. The claim: the timeout resolves every
  waiter still pending for its key and clears the set, so that each waiter is resolved
  once, by the response or else by the timeout. The reactor calls \<^verbatim>\<open>failure\<close> with no
  argument, and the call raises \<^verbatim>\<open>TypeError\<close> before the waiter set is touched: for
  every state, the timeout calls no deferred, leaves every waiter set as it is and
  replies nothing. At the failing input, two topic commands in a channel whose
  history is empty and then the timeout: both deferreds still wait, no timeout is
  pending any more and a further command arms none, so without a topic-updated
  notification the waiters are never resolved. A notification that comes after the
  timeout is not a no-op: it calls both deferreds, and the first one, whose
  \<^verbatim>\<open>success\<close> cannot cancel the timeout that has run, replies that the topic could not
  be determined and issues no request.
\<close>

theorem topic_timeout_resolves_no_waiter:
  "fired (failure c s) = fired s
   \<and> topic_waiters (failure c s) = topic_waiters s
   \<and> topic_replies (failure c s) = topic_replies s
   \<and> (let ts = run_topic [TopicEdit ''#c'' (Append ''x''), TopicEdit ''#c'' Pop] init_topic;
           ts' = failure 0 ts;
           ts'' = on_event_irc_on_topic_updated ''#c'' ''t'' ts' in
         topic_timeouts ts = [(0, ''#c'')]
         \<and> map d_id (topic_waiters ts ''#c'') = [0, 1]
         \<and> fired ts' = []
         \<and> topic_replies ts' = []
         \<and> map d_id (topic_waiters ts' ''#c'') = [0, 1]
         \<and> topic_timeouts ts' = []
         \<and> topic_errors ts' = [TypeError]
         \<and> topic_timeouts (topic_command ''#c'' Pop ts') = []
         \<and> fired ts'' = [(0, ''t''), (1, ''t'')]
         \<and> topic_replies ts'' = [''Could not determine current topic'']
         \<and> topic_requests ts'' = [(''#c'', [])])"
proof -
  let ?ts = "run_topic [TopicEdit ''#c'' (Append ''x''), TopicEdit ''#c'' Pop] init_topic"
  have ts: "?ts = \<lparr>topic_stack = (\<lambda>c. []),
      topic_waiters = (\<lambda>c. [])(''#c'' := [\<lparr>d_id = 0, d_timer = Some 0, d_edit = Some (Append ''x'')\<rparr>,
        \<lparr>d_id = 1, d_timer = None, d_edit = Some Pop\<rparr>]),
      topic_timeouts = [(0, ''#c'')], next_timeout = 1, next_deferred = 2,
      topic_queries = [''#c'', ''#c''], topic_requests = [], topic_replies = [], fired = [],
      topic_errors = []\<rparr>"
    by (simp add: run_topic_def topic_command_def get_current_topic_def add_callbacks_def
        init_topic_def Let_def)
  have g: "fired (failure c s) = fired s \<and> topic_waiters (failure c s) = topic_waiters s
      \<and> topic_replies (failure c s) = topic_replies s"
    by simp
  have r: "let ts = ?ts; ts' = failure 0 ts;
           ts'' = on_event_irc_on_topic_updated ''#c'' ''t'' ts' in
         topic_timeouts ts = [(0, ''#c'')]
         \<and> map d_id (topic_waiters ts ''#c'') = [0, 1]
         \<and> fired ts' = []
         \<and> topic_replies ts' = []
         \<and> map d_id (topic_waiters ts' ''#c'') = [0, 1]
         \<and> topic_timeouts ts' = []
         \<and> topic_errors ts' = [TypeError]
         \<and> topic_timeouts (topic_command ''#c'' Pop ts') = []
         \<and> fired ts'' = [(0, ''t''), (1, ''t'')]
         \<and> topic_replies ts'' = [''Could not determine current topic'']
         \<and> topic_requests ts'' = [(''#c'', [])]"
    unfolding Let_def ts
    by (simp add: failure_def on_event_irc_on_topic_updated_def fire_callback_def
        edit_callback_def pop_callback_def py_delitem_def py_index_def strip_def is_space_def
        topic_command_def get_current_topic_def add_callbacks_def issue_topic_def
        topic_reply_def deque_append_def Let_def)
  from g r show ?thesis by blast
qed

end
